theory Spec2Isabelle
  imports Complex_Main "HOL-Library.Word" "HOL-Library.Log_Nat"
begin

section \<open>CircularBuffer (include/market_data.h)\<close>

text \<open>
  \<^verbatim>\<open>template<typename T, size_t Size> class CircularBuffer\<close> holds a
  \<^verbatim>\<open>std::array<T, Size>\<close> and two indices. The template parameter \<open>Size\<close> is
  the first argument of every operation below; the members \<^verbatim>\<open>buffer_\<close>,
  \<^verbatim>\<open>head_\<close> and \<^verbatim>\<open>tail_\<close> lose their trailing underscore. Both indices stay
  below \<open>Size\<close>, so \<^verbatim>\<open>current_tail + 1\<close> never reaches the wrap-around of
  \<^verbatim>\<open>size_t\<close> and the indices are modelled as \<open>nat\<close>; every array access is then
  inside the array. \<^verbatim>\<open>% Size\<close> is undefined for \<open>Size = 0\<close>; the invariant
  \<open>cb_inv\<close> asks for \<open>0 < Size\<close>. The atomics are read and written by one thread.
\<close>

record 'a CircularBuffer =
  buffer :: "'a list"
  head :: nat
  tail :: nat

text \<open>
  A new buffer: \<^verbatim>\<open>head_{0}\<close>, \<^verbatim>\<open>tail_{0}\<close>, and the array with whatever \<open>Size\<close>
  elements it starts with.
\<close>

definition CircularBuffer_init :: "'a list \<Rightarrow> 'a CircularBuffer" where
  "CircularBuffer_init slots = \<lparr>buffer = slots, head = 0, tail = 0\<rparr>"

text \<open>\<^verbatim>\<open>bool push(const T& item)\<close>: the returned flag and the buffer afterwards.\<close>

definition push :: "nat \<Rightarrow> 'a \<Rightarrow> 'a CircularBuffer \<Rightarrow> bool \<times> 'a CircularBuffer" where
  "push Size item b =
     (let current_tail = tail b;
          next_tail = (current_tail + 1) mod Size
      in if next_tail = head b then (False, b)
         else (True, b\<lparr>buffer := (buffer b)[current_tail := item], tail := next_tail\<rparr>))"

text \<open>
  \<^verbatim>\<open>bool pop(T& item)\<close>: \<open>None\<close> stands for the result \<^verbatim>\<open>false\<close> (the
  reference argument is left alone), \<open>Some x\<close> for \<^verbatim>\<open>true\<close> with \<open>x\<close> written
  to the reference.
\<close>

definition pop :: "nat \<Rightarrow> 'a CircularBuffer \<Rightarrow> 'a option \<times> 'a CircularBuffer" where
  "pop Size b =
     (let current_head = head b
      in if current_head = tail b then (None, b)
         else (Some (buffer b ! current_head), b\<lparr>head := (current_head + 1) mod Size\<rparr>))"

definition size_cb :: "nat \<Rightarrow> 'a CircularBuffer \<Rightarrow> nat" where
  "size_cb Size b =
     (let h = head b; t = tail b in if t \<ge> h then t - h else Size - h + t)"

definition empty_cb :: "'a CircularBuffer \<Rightarrow> bool" where
  "empty_cb b = (head b = tail b)"

definition full :: "nat \<Rightarrow> 'a CircularBuffer \<Rightarrow> bool" where
  "full Size b =
     (let current_tail = tail b;
          next_tail = (current_tail + 1) mod Size
      in next_tail = head b)"

text \<open>
  The state a constructed object can be in: the array has \<open>Size\<close> slots and both
  indices are inside it.
\<close>

definition cb_inv :: "nat \<Rightarrow> 'a CircularBuffer \<Rightarrow> bool" where
  "cb_inv Size b = (0 < Size \<and> length (buffer b) = Size \<and> head b < Size \<and> tail b < Size)"

text \<open>The stored elements, oldest first: the slots from \<open>head\<close> up to \<open>tail\<close>.\<close>

definition contents :: "nat \<Rightarrow> 'a CircularBuffer \<Rightarrow> 'a list" where
  "contents Size b = map (\<lambda>i. buffer b ! ((head b + i) mod Size)) [0..<size_cb Size b]"

text \<open>A run of pushes, and a run of pops, each with the results in order.\<close>

fun push_all :: "nat \<Rightarrow> 'a list \<Rightarrow> 'a CircularBuffer \<Rightarrow> bool list \<times> 'a CircularBuffer" where
  "push_all Size [] b = ([], b)"
| "push_all Size (x # xs) b =
     (let (r, b') = push Size x b; (rs, b'') = push_all Size xs b' in (r # rs, b''))"

fun pop_n :: "nat \<Rightarrow> nat \<Rightarrow> 'a CircularBuffer \<Rightarrow> 'a option list \<times> 'a CircularBuffer" where
  "pop_n Size 0 b = ([], b)"
| "pop_n Size (Suc n) b =
     (let (r, b') = pop Size b; (rs, b'') = pop_n Size n b' in (r # rs, b''))"

section \<open>SymbolMapper (include/market_data.h)\<close>

text \<open>
  Faults of the C++ code that the model keeps as values: an index outside a
  \<^verbatim>\<open>std::vector\<close>, a signed addition or subtraction that leaves \<^verbatim>\<open>int64_t\<close>,
  a \<^verbatim>\<open>double\<close> cast to \<^verbatim>\<open>int64_t\<close> that does not fit, and a division of
  doubles by zero (its result is an infinity or a NaN, not a finite double).
\<close>

datatype fault = OutOfBounds | SignedOverflow | CastOutOfRange | DivisionByZero

text \<open>
  \<^verbatim>\<open>std::unordered_map<std::string, uint32_t> symbol_to_id_\<close>,
  \<^verbatim>\<open>std::vector<std::string> id_to_symbol_\<close> and
  \<^verbatim>\<open>std::atomic<uint32_t> next_id_{1}\<close>. The counter is a 32-bit word:
  \<^verbatim>\<open>fetch_add(1)\<close> and \<^verbatim>\<open>id + 1\<close> wrap around.
\<close>

record SymbolMapper =
  symbol_to_id :: "string \<rightharpoonup> 32 word"
  id_to_symbol :: "string list"
  next_id :: "32 word"

definition SymbolMapper_init :: SymbolMapper where
  "SymbolMapper_init = \<lparr>symbol_to_id = Map.empty, id_to_symbol = [], next_id = 1\<rparr>"

text \<open>\<^verbatim>\<open>std::vector::resize(n)\<close>: cut to \<open>n\<close> entries or fill up with empty strings.\<close>

definition resize :: "nat \<Rightarrow> string list \<Rightarrow> string list" where
  "resize n xs = take n xs @ replicate (n - length xs) []"

text \<open>\<^verbatim>\<open>v[i] = x\<close> and \<^verbatim>\<open>v[i]\<close> on a vector: outside the vector the behaviour is undefined.\<close>

definition vec_set :: "'a list \<Rightarrow> nat \<Rightarrow> 'a \<Rightarrow> fault + 'a list" where
  "vec_set xs i x = (if i < length xs then Inr (xs[i := x]) else Inl OutOfBounds)"

definition vec_get :: "'a list \<Rightarrow> nat \<Rightarrow> fault + 'a" where
  "vec_get xs i = (if i < length xs then Inr (xs ! i) else Inl OutOfBounds)"

definition get_id :: "string \<Rightarrow> SymbolMapper \<Rightarrow> fault + (32 word \<times> SymbolMapper)" where
  "get_id symbol m =
     (case symbol_to_id m symbol of
        Some i \<Rightarrow> Inr (i, m)
      | None \<Rightarrow>
          let ident = next_id m;
              m1 = m\<lparr>next_id := ident + 1\<rparr>;
              m2 = m1\<lparr>symbol_to_id := (symbol_to_id m1)(symbol \<mapsto> ident)\<rparr>;
              m3 = (if unat ident \<ge> length (id_to_symbol m2)
                    then m2\<lparr>id_to_symbol := resize (unat (ident + 1)) (id_to_symbol m2)\<rparr>
                    else m2)
          in case vec_set (id_to_symbol m3) (unat ident) symbol of
               Inl e \<Rightarrow> Inl e
             | Inr tab \<Rightarrow> Inr (ident, m3\<lparr>id_to_symbol := tab\<rparr>))"

definition get_symbol :: "32 word \<Rightarrow> SymbolMapper \<Rightarrow> fault + string" where
  "get_symbol ident m =
     (if unat ident < length (id_to_symbol m) then vec_get (id_to_symbol m) (unat ident) else Inr [])"

text \<open>A sequence of \<open>get_id\<close> calls, with the ids they return, in order.\<close>

fun get_ids :: "string list \<Rightarrow> SymbolMapper \<Rightarrow> fault + (32 word list \<times> SymbolMapper)" where
  "get_ids [] m = Inr ([], m)"
| "get_ids (s # ss) m =
     (case get_id s m of
        Inl e \<Rightarrow> Inl e
      | Inr (i, m') \<Rightarrow>
          (case get_ids ss m' of
             Inl e \<Rightarrow> Inl e
           | Inr (is, m'') \<Rightarrow> Inr (i # is, m'')))"

text \<open>
  What holds of a mapper between calls: the counter is at least 1, the reverse table is
  empty before the first symbol and has \<open>next_id\<close> entries afterwards, every recorded id
  is below the counter and its table entry is the symbol, and every other table entry
  is the empty string.
\<close>

definition sm_inv :: "SymbolMapper \<Rightarrow> bool" where
  "sm_inv m =
     (1 \<le> unat (next_id m) \<and>
      length (id_to_symbol m) = (if unat (next_id m) = 1 then 0 else unat (next_id m)) \<and>
      (\<forall>s i. symbol_to_id m s = Some i \<longrightarrow>
         1 \<le> unat i \<and> unat i < unat (next_id m) \<and> id_to_symbol m ! unat i = s) \<and>
      (\<forall>j < length (id_to_symbol m).
         id_to_symbol m ! j = [] \<or> symbol_to_id m (id_to_symbol m ! j) = Some (of_nat j)))"

text \<open>
  The counter is one more than the number of recorded symbols. With \<open>sm_inv\<close> this
  tells when a call for a new symbol goes through: as long as the counter is below
  \<open>2 ^ 32 - 1\<close>.
\<close>

definition sm_count :: "SymbolMapper \<Rightarrow> bool" where
  "sm_count m = (finite (dom (symbol_to_id m)) \<and>
     unat (next_id m) = Suc (card (dom (symbol_to_id m))))"

section \<open>Price and MarketTick (include/market_data.h)\<close>

text \<open>
  A finite \<^verbatim>\<open>double\<close> is the rational number it stands for. Every arithmetic
  operation of the C++ code on doubles is the exact operation followed by \<open>fl\<close>, the
  rounding of IEEE 754 binary64: to the nearest number with a 53-bit significand, a tie
  going to the even significand. \<open>ilog2 x\<close> is the exponent \<open>e\<close> with
  \<open>2 ^ e \<le> x < 2 ^ (e + 1)\<close>. The exponent range of binary64 is left out: the values
  below are quotients, products and sums of 64-bit integers and \<open>10000\<close>, far from
  overflow and from the subnormal numbers.
\<close>

definition round_even :: "rat \<Rightarrow> int" where
  "round_even y =
     (let f = \<lfloor>y\<rfloor>; r = y - of_int f
      in if r < 1 / 2 then f else if 1 / 2 < r then f + 1 else if even f then f else f + 1)"

definition ilog2 :: "rat \<Rightarrow> int" where
  "ilog2 x =
     (let (p, q) = quotient_of x; d = bitlen p - bitlen q
      in if 2 powi d \<le> x then d else d - 1)"

definition fl :: "rat \<Rightarrow> rat" where
  "fl x =
     (if x = 0 then 0
      else let u = 2 powi (ilog2 \<bar>x\<bar> - 52) in of_int (round_even (x / u)) * u)"

text \<open>
  \<^verbatim>\<open>static_cast<int64_t>\<close> of a double drops the fraction (towards zero); the
  behaviour is undefined when the result is not an \<^verbatim>\<open>int64_t\<close>.
\<close>

definition truncate_double :: "rat \<Rightarrow> int" where
  "truncate_double d = (if 0 \<le> d then \<lfloor>d\<rfloor> else \<lceil>d\<rceil>)"

definition cast_int64 :: "rat \<Rightarrow> fault + 64 word" where
  "cast_int64 d =
     (let v = truncate_double d
      in if - (2 ^ 63) \<le> v \<and> v < 2 ^ 63 then Inr (word_of_int v) else Inl CastOutOfRange)"

text \<open>\<^verbatim>\<open>struct Price { int64_t value; ... }\<close>\<close>

record Price =
  "value" :: "64 word"

text \<open>\<^verbatim>\<open>Price(double price) : value(static_cast<int64_t>(price * 10000))\<close>\<close>

definition Price_of_double :: "rat \<Rightarrow> fault + Price" where
  "Price_of_double price =
     (case cast_int64 (fl (price * 10000)) of
        Inl e \<Rightarrow> Inl e
      | Inr v \<Rightarrow> Inr \<lparr>value = v\<rparr>)"

text \<open>
  \<^verbatim>\<open>double to_double() const { return value / 10000.0; }\<close>: the integer is
  converted to a double, then divided.
\<close>

definition to_double :: "Price \<Rightarrow> rat" where
  "to_double p = fl (fl (of_int (sint (value p))) / 10000)"

text \<open>
  \<^verbatim>\<open>Price operator+(const Price& other) const { return {(value + other.value) / 10000.0}; }\<close>
  and the same with \<^verbatim>\<open>-\<close>. The sum of the two \<^verbatim>\<open>int64_t\<close> is undefined when it
  overflows; the quotient, a double, initialises the returned \<open>Price\<close> through
  \<open>Price(double)\<close>.
\<close>

definition int64_checked :: "int \<Rightarrow> fault + int" where
  "int64_checked v = (if - (2 ^ 63) \<le> v \<and> v < 2 ^ 63 then Inr v else Inl SignedOverflow)"

definition Price_plus :: "Price \<Rightarrow> Price \<Rightarrow> fault + Price" where
  "Price_plus a other =
     (case int64_checked (sint (value a) + sint (value other)) of
        Inl e \<Rightarrow> Inl e
      | Inr s \<Rightarrow> Price_of_double (fl (fl (of_int s) / 10000)))"

definition Price_minus :: "Price \<Rightarrow> Price \<Rightarrow> fault + Price" where
  "Price_minus a other =
     (case int64_checked (sint (value a) - sint (value other)) of
        Inl e \<Rightarrow> Inl e
      | Inr s \<Rightarrow> Price_of_double (fl (fl (of_int s) / 10000)))"

definition Price_greater :: "Price \<Rightarrow> Price \<Rightarrow> bool" where
  "Price_greater a other = (sint (value a) > sint (value other))"

definition Price_less :: "Price \<Rightarrow> Price \<Rightarrow> bool" where
  "Price_less a other = (sint (value a) < sint (value other))"

text \<open>
  \<^verbatim>\<open>struct MarketTick\<close>; \<^verbatim>\<open>Timestamp\<close> is its one field
  \<^verbatim>\<open>nanoseconds_since_epoch\<close>, and the member \<^verbatim>\<open>last\<close> is \<open>last_trade\<close> here.
\<close>

record MarketTick =
  timestamp :: "64 word"
  symbol_id :: "32 word"
  bid :: Price
  ask :: Price
  last_trade :: Price
  bid_size :: "32 word"
  ask_size :: "32 word"
  volume :: "32 word"
  sequence_number :: "32 word"
  exchange_id :: "32 word"
  padding :: "64 word"

definition double_div :: "rat \<Rightarrow> rat \<Rightarrow> fault + rat" where
  "double_div x y = (if y = 0 then Inl DivisionByZero else Inr (fl (x / y)))"

text \<open>\<^verbatim>\<open>return Price((bid.to_double() + ask.to_double()) / 2.0);\<close>\<close>

definition midpoint :: "MarketTick \<Rightarrow> fault + Price" where
  "midpoint t =
     (case double_div (fl (to_double (bid t) + to_double (ask t))) 2 of
        Inl e \<Rightarrow> Inl e
      | Inr d \<Rightarrow> Price_of_double d)"

text \<open>\<^verbatim>\<open>return ask.to_double() - bid.to_double();\<close>\<close>

definition spread :: "MarketTick \<Rightarrow> rat" where
  "spread t = fl (to_double (ask t) - to_double (bid t))"

text \<open>
  \<^verbatim>\<open>double mid = midpoint().to_double();
  return mid > 0 ? (spread() / mid) * 100.0 : 0.0;\<close>
\<close>

definition spread_pct :: "MarketTick \<Rightarrow> fault + rat" where
  "spread_pct t =
     (case midpoint t of
        Inl e \<Rightarrow> Inl e
      | Inr m \<Rightarrow>
          let mid = to_double m
          in if mid > 0
             then (case double_div (spread t) mid of
                     Inl e \<Rightarrow> Inl e
                   | Inr q \<Rightarrow> Inr (fl (q * 100)))
             else Inr 0)"

section \<open>Position state machine and risk gate (straddle strategy header)\<close>

text \<open>
  The header declares the types and the configuration defaults; the member functions
  \<^verbatim>\<open>StraddleStrategy::create_straddle_position\<close> and
  \<^verbatim>\<open>RiskManager::can_open_position\<close> are declared there and defined nowhere in the
  repository. Money is an exact rational number of dollars in this section. The
  fractions of \<open>Config\<close> and \<open>RiskLimits\<close> are \<^verbatim>\<open>double\<close> members: a default is
  the double nearest to the decimal constant the constructor is written with, \<open>fl\<close> of
  that constant.
\<close>

datatype PositionStatus = NONE | ANALYZING | ENTRY_PENDING | ACTIVE | EXIT_PENDING | CLOSED | ERROR





text \<open>
  \<^verbatim>\<open>struct RiskManager::RiskLimits\<close> and its default constructor; its member
  \<^verbatim>\<open>max_positions\<close> is \<open>risk_max_positions\<close> here.
\<close>

record RiskLimits =
  max_portfolio_risk :: rat
  max_position_size :: rat
  max_correlation :: rat
  max_sector_exposure :: rat
  risk_max_positions :: nat
  max_daily_loss :: rat
  max_monthly_loss :: rat

definition RiskLimits_default :: RiskLimits where
  "RiskLimits_default =
     \<lparr>max_portfolio_risk = fl (10 / 100),
      max_position_size = fl (5 / 100),
      max_correlation = fl (70 / 100),
      max_sector_exposure = fl (30 / 100),
      risk_max_positions = 20,
      max_daily_loss = fl (2 / 100),
      max_monthly_loss = fl (5 / 100)\<rparr>"

text \<open>
  Modelled from the spec: the state that the four checks of the risk gate (section 4.6)
  read. The class declares \<^verbatim>\<open>limits_\<close>, \<^verbatim>\<open>current_portfolio_risk_\<close>,
  \<^verbatim>\<open>daily_pnl_\<close> and \<^verbatim>\<open>monthly_pnl_\<close>; the specification speaks of the number of
  open positions and of the daily realized loss, which are \<open>open_positions\<close> and
  \<open>daily_loss\<close> here, the loss in the unit of \<open>max_daily_loss\<close>.
\<close>

record RiskManager =
  limits :: RiskLimits
  current_portfolio_risk :: rat
  open_positions :: nat
  daily_loss :: rat

datatype denial = PositionSize | PortfolioRisk | PositionCount | DailyLoss

text \<open>
  Modelled from the spec: \<^verbatim>\<open>RiskManager::can_open_position\<close> of section 4.6, whose
  body is missing. The gate rejects when the position notional exceeds the
  \<open>max_position_size\<close> fraction of the portfolio value, when the current portfolio risk
  exceeds \<open>max_portfolio_risk\<close>, when one more position would exceed \<open>max_positions\<close>,
  or when the daily realized loss exceeds \<open>max_daily_loss\<close>. The checks run in this
  order and \<open>risk_check\<close> gives the first that fails. The header does not say how a
  notional is read off a position, so the notional is the argument.
\<close>

definition risk_check :: "RiskManager \<Rightarrow> rat \<Rightarrow> rat \<Rightarrow> denial option" where
  "risk_check rm notional portfolio_value =
     (if notional > max_position_size (limits rm) * portfolio_value then Some PositionSize
      else if current_portfolio_risk rm > max_portfolio_risk (limits rm) then Some PortfolioRisk
      else if open_positions rm + 1 > risk_max_positions (limits rm) then Some PositionCount
      else if daily_loss rm > max_daily_loss (limits rm) then Some DailyLoss
      else None)"

text \<open>
  Modelled from the spec: the boolean result of \<^verbatim>\<open>can_open_position\<close> (section 4.6):
  the position may be opened when no check fails.
\<close>

definition can_open_position :: "RiskManager \<Rightarrow> rat \<Rightarrow> rat \<Rightarrow> bool" where
  "can_open_position rm notional portfolio_value = (risk_check rm notional portfolio_value = None)"

section \<open>MarketDataAggregator\<close>

text \<open>
  Modelled from the spec: the state of the aggregator as section 4.3 describes it, per
  symbol id the latest tick and a bounded history, and the count of rejected ticks.
  \<^verbatim>\<open>void MarketDataAggregator::add_tick(const MarketTick& tick)\<close> is declared in
  include/market_data.h and defined nowhere in the repository; the class declares a
  tick buffer and a price history and no rejection counter.
\<close>

record MarketDataAggregator =
  latest :: "32 word \<rightharpoonup> MarketTick"
  history :: "32 word \<Rightarrow> MarketTick list"
  rejected :: nat

text \<open>
  Modelled from the spec: the ticks the aggregator rejects. Section 8 rejects a tick
  with \<open>ask \<le> bid\<close>, section 3 one with \<open>ask \<le> 0\<close> or \<open>bid \<le> 0\<close>. Prices are
  compared on their integer values, as \<^verbatim>\<open>Price::operator>\<close> does.
\<close>

definition tick_rejected :: "MarketTick \<Rightarrow> bool" where
  "tick_rejected t =
     (\<not> Price_greater (ask t) (bid t) \<or> \<not> 0 < sint (value (ask t)) \<or> \<not> 0 < sint (value (bid t)))"

text \<open>
  Modelled from the spec: \<open>add_tick\<close> of section 4.3, whose body is missing. A
  rejected tick only increments the rejection counter. Any other tick becomes the latest
  tick of its symbol and is appended to that symbol's history, which drops its oldest
  entry when the window of \<open>window\<close> ticks is full.
\<close>

definition add_tick :: "nat \<Rightarrow> MarketTick \<Rightarrow> MarketDataAggregator \<Rightarrow> MarketDataAggregator" where
  "add_tick window t s =
     (if tick_rejected t then s\<lparr>rejected := rejected s + 1\<rparr>
      else let h = history s (symbol_id t);
               h' = (if length h \<ge> window then drop (length h + 1 - window) (h @ [t]) else h @ [t])
           in s\<lparr>latest := (latest s)(symbol_id t \<mapsto> t),
                history := (history s)(symbol_id t := h')\<rparr>)"

text \<open>
  Modelled from the spec: \<open>get_latest_tick(symbol_id) -> Optional<MarketTick>\<close> of
  section 4.3, whose body is missing as well.
\<close>

definition get_latest_tick :: "32 word \<Rightarrow> MarketDataAggregator \<Rightarrow> MarketTick option" where
  "get_latest_tick sid s = latest s sid"

section \<open>CircularBuffer: the stored elements under push and pop\<close>

lemma init_inv_cb:
  "0 < length slots \<Longrightarrow> cb_inv (length slots) (CircularBuffer_init slots) \<and>
     head (CircularBuffer_init slots) = tail (CircularBuffer_init slots)"
  by (simp add: cb_inv_def CircularBuffer_init_def)

lemma mod_wrap: "(n::nat) \<le> x \<Longrightarrow> x < n + n \<Longrightarrow> x mod n = x - n"
  by (simp add: le_mod_geq)

lemma size_lt: "cb_inv Size b \<Longrightarrow> size_cb Size b < Size"
  by (auto simp: cb_inv_def size_cb_def Let_def)

lemma head_plus_size: "cb_inv Size b \<Longrightarrow> (head b + size_cb Size b) mod Size = tail b"
  by (auto simp: cb_inv_def size_cb_def Let_def)

lemma slot_ne_tail:
  assumes "cb_inv Size b" "i < size_cb Size b"
  shows "(head b + i) mod Size \<noteq> tail b"
proof (cases "head b + i < Size")
  case True
  with assms show ?thesis
    by (auto simp: cb_inv_def size_cb_def Let_def split: if_splits)
next
  case False
  with assms have "(head b + i) mod Size = head b + i - Size"
    by (intro mod_wrap) (auto simp: cb_inv_def size_cb_def Let_def split: if_splits)
  with assms False show ?thesis
    by (auto simp: cb_inv_def size_cb_def Let_def split: if_splits)
qed

lemma succ_mod: "(t::nat) < n \<Longrightarrow> Suc t mod n = (if Suc t = n then 0 else Suc t)"
  by (simp add: mod_Suc)

lemma full_iff_size: "cb_inv Size b \<Longrightarrow> full Size b \<longleftrightarrow> size_cb Size b = Size - 1"
  by (auto simp: cb_inv_def full_def size_cb_def Let_def succ_mod split: if_splits)

lemma push_full: "full Size b \<Longrightarrow> push Size x b = (False, b)"
  by (simp add: full_def push_def Let_def)

lemma push_not_full:
  "\<not> full Size b \<Longrightarrow>
   push Size x b = (True, b\<lparr>buffer := (buffer b)[tail b := x], tail := (tail b + 1) mod Size\<rparr>)"
  by (simp add: full_def push_def Let_def)

lemma push_inv: "cb_inv Size b \<Longrightarrow> cb_inv Size (snd (push Size x b))"
  by (auto simp: cb_inv_def push_def Let_def)

lemma pop_inv: "cb_inv Size b \<Longrightarrow> cb_inv Size (snd (pop Size b))"
  by (auto simp: cb_inv_def pop_def Let_def)

lemma push_size:
  "cb_inv Size b \<Longrightarrow> \<not> full Size b \<Longrightarrow> size_cb Size (snd (push Size x b)) = size_cb Size b + 1"
  by (auto simp: cb_inv_def full_def push_def size_cb_def Let_def succ_mod split: if_splits)

lemma pop_size:
  "cb_inv Size b \<Longrightarrow> head b \<noteq> tail b \<Longrightarrow> size_cb Size (snd (pop Size b)) = size_cb Size b - 1"
  by (auto simp: cb_inv_def pop_def size_cb_def Let_def succ_mod split: if_splits)

lemma push_contents:
  assumes "cb_inv Size b" "\<not> full Size b"
  shows "contents Size (snd (push Size x b)) = contents Size b @ [x]"
proof -
  let ?b' = "b\<lparr>buffer := (buffer b)[tail b := x], tail := (tail b + 1) mod Size\<rparr>"
  have p: "snd (push Size x b) = ?b'" using assms(2) by (simp add: push_not_full)
  have sz: "size_cb Size ?b' = size_cb Size b + 1"
    using push_size [OF assms, of x] p by simp
  have old: "buffer ?b' ! ((head ?b' + i) mod Size) = buffer b ! ((head b + i) mod Size)"
    if "i < size_cb Size b" for i
    using slot_ne_tail [OF assms(1) that] by simp
  have new: "buffer ?b' ! ((head ?b' + size_cb Size b) mod Size) = x"
    using head_plus_size [OF assms(1)] assms(1) by (simp add: cb_inv_def)
  show ?thesis
    unfolding p contents_def sz using old new by simp
qed

lemma pop_empty: "head b = tail b \<Longrightarrow> pop Size b = (None, b)"
  by (simp add: pop_def)

lemma contents_empty_iff: "cb_inv Size b \<Longrightarrow> contents Size b = [] \<longleftrightarrow> head b = tail b"
  by (auto simp: contents_def cb_inv_def size_cb_def Let_def)

lemma pop_contents:
  assumes "cb_inv Size b" "head b \<noteq> tail b"
  shows "fst (pop Size b) = Some (hd (contents Size b))"
    and "contents Size (snd (pop Size b)) = tl (contents Size b)"
proof -
  let ?b' = "b\<lparr>head := Suc (head b) mod Size\<rparr>"
  have p: "pop Size b = (Some (buffer b ! head b), ?b')"
    using assms(2) by (simp add: pop_def Let_def)
  have pos: "0 < size_cb Size b"
    using assms by (auto simp: cb_inv_def size_cb_def Let_def)
  have sz: "size_cb Size ?b' = size_cb Size b - Suc 0"
    using pop_size [OF assms] p by simp
  have h0: "hd (contents Size b) = buffer b ! head b"
    using pos assms(1) by (simp add: contents_def hd_map upt_conv_Cons cb_inv_def)
  show "fst (pop Size b) = Some (hd (contents Size b))"
    by (simp add: p h0)
  have shift: "(Suc (head b) mod Size + i) mod Size = Suc (head b + i) mod Size" for i
    by (simp add: mod_add_left_eq)
  have "tl (contents Size b) = map (\<lambda>i. buffer b ! ((head b + Suc i) mod Size)) [0..<size_cb Size b - 1]"
    by (rule nth_equalityI) (auto simp: contents_def nth_tl)
  then show "contents Size (snd (pop Size b)) = tl (contents Size b)"
    unfolding p contents_def by (simp add: sz shift)
qed


lemma length_contents: "length (contents Size b) = size_cb Size b"
  by (simp add: contents_def)

lemma push_all_full:
  "full Size b \<Longrightarrow> push_all Size xs b = (replicate (length xs) False, b)"
  by (induction xs) (simp_all add: push_full)

lemma push_all_any:
  "cb_inv Size b \<Longrightarrow>
   fst (push_all Size xs b)
     = replicate (min (length xs) (Size - 1 - size_cb Size b)) True
       @ replicate (length xs - (Size - 1 - size_cb Size b)) False \<and>
   cb_inv Size (snd (push_all Size xs b)) \<and>
   contents Size (snd (push_all Size xs b))
     = contents Size b @ take (Size - 1 - size_cb Size b) xs"
proof (induction xs arbitrary: b)
  case Nil
  then show ?case by simp
next
  case (Cons x xs)
  show ?case
  proof (cases "full Size b")
    case True
    then have sz: "size_cb Size b = Size - 1"
      using Cons.prems by (simp add: full_iff_size)
    have pa: "push_all Size (x # xs) b = (replicate (length (x # xs)) False, b)"
      using True by (rule push_all_full)
    show ?thesis
      unfolding pa using sz Cons.prems by simp
  next
    case False
    let ?b' = "snd (push Size x b)"
    have r: "fst (push Size x b)"
      using False by (simp add: push_not_full)
    have inv': "cb_inv Size ?b'"
      using Cons.prems by (rule push_inv)
    have sz': "size_cb Size ?b' = size_cb Size b + 1"
      using Cons.prems False by (rule push_size)
    have room: "size_cb Size b < Size - 1"
      using False Cons.prems size_lt [OF Cons.prems] by (simp add: full_iff_size)
    then obtain k where k: "Size - Suc (size_cb Size b) = Suc k"
      by (metis Suc_diff_Suc diff_Suc_eq_diff_pred)
    then have k': "Size - Suc (size_cb Size ?b') = k"
      using sz' by simp
    have c': "contents Size ?b' = contents Size b @ [x]"
      using Cons.prems False by (rule push_contents)
    from Cons.IH [OF inv'] r c' show ?thesis
      by (simp add: split_beta k k')
  qed
qed

lemma pop_n_prefix:
  "cb_inv Size b \<Longrightarrow> n \<le> size_cb Size b \<Longrightarrow>
   fst (pop_n Size n b) = map Some (take n (contents Size b)) \<and>
   cb_inv Size (snd (pop_n Size n b)) \<and>
   contents Size (snd (pop_n Size n b)) = drop n (contents Size b)"
proof (induction n arbitrary: b)
  case 0
  then show ?case by simp
next
  case (Suc n)
  from Suc.prems have ne: "head b \<noteq> tail b"
    by (auto simp: size_cb_def)
  let ?b' = "snd (pop Size b)"
  have ne': "contents Size b \<noteq> []"
    using ne Suc.prems(1) by (simp add: contents_empty_iff)
  have r: "fst (pop Size b) = Some (hd (contents Size b))"
    using Suc.prems(1) ne by (rule pop_contents(1))
  have inv': "cb_inv Size ?b'"
    using Suc.prems(1) by (rule pop_inv)
  have c': "contents Size ?b' = tl (contents Size b)"
    using Suc.prems(1) ne by (rule pop_contents(2))
  have sz': "n \<le> size_cb Size ?b'"
    using pop_size [OF Suc.prems(1) ne] Suc.prems(2) by simp
  from Suc.IH [OF inv' sz'] r c' ne' show ?case
    by (simp add: split_beta take_Suc drop_Suc)
qed


text \<open>
  Claim C1, as the claim states it, fails when the capacity is the template parameter
  \<open>Size\<close>, the number of slots: of four pushes into an empty buffer with \<open>Size = 4\<close>
  the fourth returns \<^verbatim>\<open>false\<close> (the check \<open>next_tail = head\<close> keeps one slot free), and
  the four pops that follow return the first three values and then \<^verbatim>\<open>false\<close>; the
  fourth value is never popped.
\<close>

theorem fifo_order_counterexample:
  "fst (push_all 4 [10, 20, 30, 40 :: nat] \<lparr>buffer = [0, 0, 0, 0], head = 0, tail = 0\<rparr>)
     = [True, True, True, False] \<and>
   fst (pop_n 4 4 (snd (push_all 4 [10, 20, 30, 40 :: nat] \<lparr>buffer = [0, 0, 0, 0], head = 0, tail = 0\<rparr>)))
     = [Some 10, Some 20, Some 30, None]"
  by code_simp

text \<open>
  Claim C1, amended. Start from an empty buffer (\<open>head = tail\<close>, at any position of
  the array) and push the values \<open>xs\<close>. When there are at most \<open>Size - 1\<close> of them,
  every push returns \<^verbatim>\<open>true\<close>, the next \<open>length xs\<close> pops return the values of \<open>xs\<close>
  in the order they were pushed, and the pop after those returns \<^verbatim>\<open>false\<close>. For any
  number of pushes, the first \<open>Size - 1\<close> return \<^verbatim>\<open>true\<close> and the later ones
  \<^verbatim>\<open>false\<close>, and the pops return the accepted values in the order they were pushed
  before the next pop returns \<^verbatim>\<open>false\<close>.
\<close>

theorem fifo_order:
  assumes "cb_inv Size b" and "head b = tail b"
  shows "(length xs < Size \<longrightarrow>
            fst (push_all Size xs b) = replicate (length xs) True \<and>
            fst (pop_n Size (length xs) (snd (push_all Size xs b))) = map Some xs \<and>
            fst (pop Size (snd (pop_n Size (length xs) (snd (push_all Size xs b))))) = None) \<and>
         fst (push_all Size xs b)
           = replicate (min (length xs) (Size - 1)) True @ replicate (length xs - (Size - 1)) False \<and>
         fst (pop_n Size (min (length xs) (Size - 1)) (snd (push_all Size xs b)))
           = map Some (take (Size - 1) xs) \<and>
         fst (pop Size (snd (pop_n Size (min (length xs) (Size - 1)) (snd (push_all Size xs b))))) = None"
proof -
  let ?k = "min (length xs) (Size - 1)"
  let ?b' = "snd (push_all Size xs b)"
  let ?b'' = "snd (pop_n Size ?k ?b')"
  have e: "contents Size b = []"
    using assms by (simp add: contents_empty_iff)
  then have s0: "size_cb Size b = 0"
    using length_contents [of Size b] by simp
  have pa: "fst (push_all Size xs b) = replicate ?k True @ replicate (length xs - (Size - 1)) False"
    "cb_inv Size ?b'" "contents Size ?b' = take (Size - 1) xs"
    using push_all_any [OF assms(1), of xs] s0 e by simp_all
  have sz: "?k \<le> size_cb Size ?b'"
    using pa(3) length_contents [of Size ?b'] by simp
  have pn: "fst (pop_n Size ?k ?b') = map Some (take (Size - 1) xs)"
    "cb_inv Size ?b''" "contents Size ?b'' = []"
    using pop_n_prefix [OF pa(2) sz] pa(3) by (simp_all add: min_def)
  have "head ?b'' = tail ?b''"
    using pn(2,3) by (simp add: contents_empty_iff)
  then have last: "fst (pop Size ?b'') = None"
    by (simp add: pop_empty)
  have fits: "?k = length xs" "take (Size - 1) xs = xs" "length xs - (Size - 1) = 0"
    if "length xs < Size"
    using that by simp_all
  from pa(1) pn(1) last fits show ?thesis
    by (auto simp del: replicate_eq_replicate)
qed

theorem fifo_order_witness:
  "fst (push_all 4 [10, 20, 30 :: nat] \<lparr>buffer = [0, 0, 0, 0], head = 3, tail = 3\<rparr>)
     = [True, True, True] \<and>
   fst (pop_n 4 3 (snd (push_all 4 [10, 20, 30 :: nat] \<lparr>buffer = [0, 0, 0, 0], head = 3, tail = 3\<rparr>)))
     = [Some 10, Some 20, Some 30] \<and>
   fst (pop 4 (snd (pop_n 4 3 (snd (push_all 4 [10, 20, 30 :: nat]
     \<lparr>buffer = [0, 0, 0, 0], head = 3, tail = 3\<rparr>))))) = None \<and>
   fst (push_all 4 [10, 20, 30, 40 :: nat] \<lparr>buffer = [0, 0, 0, 0], head = 3, tail = 3\<rparr>)
     = [True, True, True, False] \<and>
   fst (pop_n 4 3 (snd (push_all 4 [10, 20, 30, 40 :: nat] \<lparr>buffer = [0, 0, 0, 0], head = 3, tail = 3\<rparr>)))
     = [Some 10, Some 20, Some 30]"
proof -
  let ?b = "\<lparr>buffer = [0, 0, 0, 0 :: nat], head = 3, tail = 3\<rparr>"
  let ?xs = "[10, 20, 30 :: nat]"
  let ?ys = "[10, 20, 30, 40 :: nat]"
  have i: "cb_inv 4 ?b" by (simp add: cb_inv_def)
  have e: "head ?b = tail ?b" by simp
  have l: "length ?xs < 4" by simp
  have n: "length ?xs = 3" by simp
  have r: "replicate 3 True = [True, True, True]" by (simp add: numeral_3_eq_3)
  from fifo_order [OF i e, of ?xs] l
  have a: "fst (push_all 4 ?xs ?b) = replicate (length ?xs) True"
    and b: "fst (pop_n 4 (length ?xs) (snd (push_all 4 ?xs ?b))) = map Some ?xs"
    and c: "fst (pop 4 (snd (pop_n 4 (length ?xs) (snd (push_all 4 ?xs ?b))))) = None"
    by blast+
  have m: "min (length ?ys) (4 - 1) = 3" by simp
  have d: "length ?ys - (4 - 1) = Suc 0" by simp
  have t: "take (4 - 1) ?ys = ?xs" by (simp add: numeral_3_eq_3)
  from fifo_order [OF i e, of ?ys]
  have f: "fst (push_all 4 ?ys ?b) = replicate (min (length ?ys) (4 - 1)) True
             @ replicate (length ?ys - (4 - 1)) False"
    and g: "fst (pop_n 4 (min (length ?ys) (4 - 1)) (snd (push_all 4 ?ys ?b)))
             = map Some (take (4 - 1) ?ys)"
    by blast+
  note a' = a [unfolded n r] and b' = b [unfolded n list.map] and c' = c [unfolded n]
  have f': "fst (push_all 4 ?ys ?b) = [True, True, True, False]"
    using f unfolding m d r by simp
  note g' = g [unfolded m t list.map]
  from a' b' c' f' g' show ?thesis by blast
qed

text \<open>
  Claim C2. A push into a full buffer returns \<^verbatim>\<open>false\<close> and the buffer is the one
  it was: the array and both indices are unchanged. The pops that follow return the
  elements that were stored, oldest first.
\<close>

theorem push_full_unchanged:
  assumes "cb_inv Size b" and "full Size b"
  shows "push Size x b = (False, b) \<and>
         fst (pop_n Size (size_cb Size b) (snd (push Size x b))) = map Some (contents Size b)"
proof -
  have p: "push Size x b = (False, b)"
    using assms(2) by (rule push_full)
  have "fst (pop_n Size (size_cb Size b) b) = map Some (contents Size b)"
    using pop_n_prefix [OF assms(1), of "size_cb Size b"] length_contents [of Size b] by simp
  with p show ?thesis by simp
qed


theorem push_full_unchanged_witness:
  "push 4 (99 :: nat) \<lparr>buffer = [20, 30, 0, 10], head = 3, tail = 2\<rparr>
     = (False, \<lparr>buffer = [20, 30, 0, 10], head = 3, tail = 2\<rparr>) \<and>
   fst (pop_n 4 3 (snd (push 4 (99 :: nat) \<lparr>buffer = [20, 30, 0, 10], head = 3, tail = 2\<rparr>)))
     = [Some 10, Some 20, Some 30]"
proof -
  let ?b = "\<lparr>buffer = [20, 30, 0, 10 :: nat], head = 3, tail = 2\<rparr>"
  have i: "cb_inv 4 ?b" by (simp add: cb_inv_def)
  have f: "full 4 ?b" by (simp add: full_def)
  have n: "size_cb 4 ?b = 3" by (simp add: size_cb_def)
  have u: "[0..<3] = [0, 1, 2]" by (simp add: upt_rec)
  have c: "contents 4 ?b = [10, 20, 30]" by (simp add: contents_def n u)
  show ?thesis
    by (rule push_full_unchanged [OF i f, of 99, unfolded n c list.map])
qed

text \<open>
  Claim C9. A buffer of template capacity \<open>Size\<close> holds at most \<open>Size - 1\<close>
  elements. \<open>push\<close> returns \<^verbatim>\<open>false\<close> exactly when \<open>(tail + 1) mod Size = head\<close>,
  which is the case exactly when \<open>Size - 1\<close> elements are stored; \<open>size\<close> is
  below \<open>Size\<close>, and both \<open>push\<close> and \<open>pop\<close> keep the indices in range and the
  bound on \<open>size\<close>.
\<close>

theorem size_bound:
  assumes "cb_inv Size b"
  shows "size_cb Size b \<le> Size - 1 \<and>
         (fst (push Size x b) = False \<longleftrightarrow> (tail b + 1) mod Size = head b) \<and>
         (full Size b \<longleftrightarrow> size_cb Size b = Size - 1) \<and>
         cb_inv Size (snd (push Size x b)) \<and> size_cb Size (snd (push Size x b)) \<le> Size - 1 \<and>
         cb_inv Size (snd (pop Size b)) \<and> size_cb Size (snd (pop Size b)) \<le> Size - 1"
proof -
  have b: "size_cb Size c \<le> Size - 1" if "cb_inv Size c" for c :: "'a CircularBuffer"
    using size_lt [OF that] by simp
  have "fst (push Size x b) = False \<longleftrightarrow> (tail b + 1) mod Size = head b"
    by (simp add: push_def Let_def)
  with assms b push_inv [OF assms, of x] pop_inv [OF assms] full_iff_size [OF assms]
  show ?thesis by blast
qed

theorem size_bound_witness:
  "size_cb 4 \<lparr>buffer = [20, 30, 0, 10 :: nat], head = 3, tail = 2\<rparr> = 3 \<and>
   fst (push 4 99 \<lparr>buffer = [20, 30, 0, 10 :: nat], head = 3, tail = 2\<rparr>) = False \<and>
   full 4 \<lparr>buffer = [20, 30, 0, 10 :: nat], head = 3, tail = 2\<rparr> \<and>
   size_cb 4 (snd (pop 4 \<lparr>buffer = [20, 30, 0, 10 :: nat], head = 3, tail = 2\<rparr>)) \<le> 3"
proof -
  let ?b = "\<lparr>buffer = [20, 30, 0, 10 :: nat], head = 3, tail = 2\<rparr>"
  have i: "cb_inv 4 ?b" by (simp add: cb_inv_def)
  have n: "size_cb 4 ?b = 3" by (simp add: size_cb_def)
  from size_bound [OF i, of 99] n show ?thesis by simp
qed

section \<open>SymbolMapper: ids and the reverse table\<close>

lemma get_id_found: "symbol_to_id m s = Some i \<Longrightarrow> get_id s m = Inr (i, m)"
  by (simp add: get_id_def)

lemma resize_length: "length (resize n xs) = n"
  by (simp add: resize_def)

lemma resize_nth:
  "j < n \<Longrightarrow> resize n xs ! j = (if j < length xs then xs ! j else [])"
  by (simp add: resize_def nth_append)

lemma get_id_new:
  assumes inv: "sm_inv m" and new: "symbol_to_id m s = None" and ok: "get_id s m = Inr (i, m')"
  shows "i = next_id m"
    and "unat (next_id m + 1) = Suc (unat (next_id m))"
    and "m' = \<lparr>symbol_to_id = (symbol_to_id m)(s \<mapsto> next_id m),
               id_to_symbol = (resize (Suc (unat (next_id m))) (id_to_symbol m))[unat (next_id m) := s],
               next_id = next_id m + 1\<rparr>"
proof -
  have len: "length (id_to_symbol m) \<le> unat (next_id m)"
    using inv by (auto simp: sm_inv_def split: if_splits)
  have nz: "next_id m + 1 \<noteq> 0"
  proof
    assume z: "next_id m + 1 = 0"
    then have "get_id s m = Inl OutOfBounds"
      using new len by (simp add: get_id_def Let_def vec_set_def resize_def)
    with ok show False by simp
  qed
  then show u: "unat (next_id m + 1) = Suc (unat (next_id m))"
    using unatSuc [of "next_id m"] by (simp add: add.commute)
  from ok new len u show "i = next_id m"
    by (auto simp: get_id_def Let_def vec_set_def resize_length split: if_splits)
  from ok new len u show "m' = \<lparr>symbol_to_id = (symbol_to_id m)(s \<mapsto> next_id m),
               id_to_symbol = (resize (Suc (unat (next_id m))) (id_to_symbol m))[unat (next_id m) := s],
               next_id = next_id m + 1\<rparr>"
    by (auto simp: get_id_def Let_def vec_set_def resize_length split: if_splits)
qed

lemma get_id_inv:
  assumes inv: "sm_inv m" and ok: "get_id s m = Inr (i, m')"
  shows "sm_inv m'"
proof (cases "symbol_to_id m s")
  case (Some k)
  with ok inv show ?thesis by (simp add: get_id_found)
next
  case None
  let ?n = "unat (next_id m)"
  let ?tab = "(resize (Suc ?n) (id_to_symbol m))[?n := s]"
  note g = get_id_new [OF inv None ok]
  have n1: "1 \<le> ?n" and len: "length (id_to_symbol m) = (if ?n = 1 then 0 else ?n)"
    using inv by (simp_all add: sm_inv_def)
  have fwd: "1 \<le> unat k \<and> unat k < ?n \<and> id_to_symbol m ! unat k = t"
    if "symbol_to_id m t = Some k" for t k
    using inv that by (simp add: sm_inv_def)
  have bwd: "id_to_symbol m ! j = [] \<or> symbol_to_id m (id_to_symbol m ! j) = Some (of_nat j)"
    if "j < length (id_to_symbol m)" for j
    using inv that by (simp add: sm_inv_def)
  have sel: "symbol_to_id m' = (symbol_to_id m)(s \<mapsto> next_id m)"
    "id_to_symbol m' = ?tab" "next_id m' = next_id m + 1"
    by (simp_all add: g(3))
  have c1: "1 \<le> unat (next_id m')"
    by (simp add: sel g(2))
  have c2: "length (id_to_symbol m') = (if unat (next_id m') = 1 then 0 else unat (next_id m'))"
    using n1 by (simp add: sel g(2) resize_length)
  have c3: "1 \<le> unat k \<and> unat k < unat (next_id m') \<and> id_to_symbol m' ! unat k = t"
    if h: "symbol_to_id m' t = Some k" for t k
  proof (cases "t = s")
    case True
    with h have "k = next_id m" by (simp add: sel)
    with True n1 show ?thesis by (simp add: sel g(2) resize_length)
  next
    case False
    with h have old: "symbol_to_id m t = Some k" by (simp add: sel)
    from fwd [OF old] have k: "1 \<le> unat k" "unat k < ?n" "id_to_symbol m ! unat k = t"
      by simp_all
    from k(1,2) len have "unat k < length (id_to_symbol m)"
      by (auto split: if_splits)
    with k show ?thesis
      by (simp add: sel g(2) resize_nth)
  qed
  have c4: "id_to_symbol m' ! j = [] \<or> symbol_to_id m' (id_to_symbol m' ! j) = Some (of_nat j)"
    if h: "j < length (id_to_symbol m')" for j
  proof (cases "j = ?n")
    case True
    then show ?thesis by (simp add: sel resize_length)
  next
    case False
    with h have jn: "j < ?n" by (simp add: sel resize_length)
    show ?thesis
    proof (cases "j < length (id_to_symbol m)")
      case True
      have e: "?tab ! j = id_to_symbol m ! j"
        using jn False True by (simp add: resize_nth)
      from bwd [OF True] show ?thesis
      proof
        assume "id_to_symbol m ! j = []"
        then show ?thesis by (simp add: sel e)
      next
        assume a: "symbol_to_id m (id_to_symbol m ! j) = Some (of_nat j)"
        with None have "id_to_symbol m ! j \<noteq> s" by auto
        with a show ?thesis by (simp add: sel e)
      qed
    next
      case False
      with jn \<open>j \<noteq> ?n\<close> show ?thesis by (simp add: sel resize_nth)
    qed
  qed
  from c1 c2 c3 c4 show ?thesis
    unfolding sm_inv_def by blast
qed

lemma init_inv: "sm_inv SymbolMapper_init"
  by (simp add: sm_inv_def SymbolMapper_init_def)


lemma get_id_result:
  assumes inv: "sm_inv m" and ok: "get_id s m = Inr (i, m')"
  shows "symbol_to_id m' s = Some i"
    and "symbol_to_id m t = Some k \<Longrightarrow> symbol_to_id m' t = Some k"
    and "dom (symbol_to_id m') = insert s (dom (symbol_to_id m))"
proof -
  have "symbol_to_id m' s = Some i \<and>
        (symbol_to_id m t = Some k \<longrightarrow> symbol_to_id m' t = Some k) \<and>
        dom (symbol_to_id m') = insert s (dom (symbol_to_id m))"
  proof (cases "symbol_to_id m s")
    case (Some j)
    with ok show ?thesis by (auto simp: get_id_found)
  next
    case None
    note g = get_id_new [OF inv None ok]
    from None show ?thesis by (auto simp: g(1) g(3))
  qed
  then show "symbol_to_id m' s = Some i"
    and "symbol_to_id m t = Some k \<Longrightarrow> symbol_to_id m' t = Some k"
    and "dom (symbol_to_id m') = insert s (dom (symbol_to_id m))"
    by simp_all
qed

lemma get_ids_run:
  "sm_inv m \<Longrightarrow> get_ids ss m = Inr (ids, m') \<Longrightarrow>
   sm_inv m' \<and> length ids = length ss \<and>
   (\<forall>j<length ss. symbol_to_id m' (ss ! j) = Some (ids ! j)) \<and>
   (\<forall>t k. symbol_to_id m t = Some k \<longrightarrow> symbol_to_id m' t = Some k) \<and>
   dom (symbol_to_id m') = dom (symbol_to_id m) \<union> set ss"
proof (induction ss arbitrary: m ids)
  case Nil
  then show ?case by simp
next
  case (Cons s ss)
  from Cons.prems(2) obtain i m1 where g: "get_id s m = Inr (i, m1)"
    by (auto split: sum.splits)
  with Cons.prems(2) obtain rest where r: "get_ids ss m1 = Inr (rest, m')" and ids: "ids = i # rest"
    by (auto split: sum.splits)
  have inv1: "sm_inv m1"
    using Cons.prems(1) g by (rule get_id_inv)
  note step = get_id_result [OF Cons.prems(1) g]
  note ih = Cons.IH [OF inv1 r]
  have a: "symbol_to_id m' ((s # ss) ! j) = Some (ids ! j)" if "j < length (s # ss)" for j
  proof (cases j)
    case 0
    with step(1) ih show ?thesis by (simp add: ids)
  next
    case (Suc j')
    with that ih show ?thesis by (simp add: ids)
  qed
  have b: "symbol_to_id m' t = Some k" if "symbol_to_id m t = Some k" for t k
    using step(2) [OF that] ih by simp
  have c: "dom (symbol_to_id m') = dom (symbol_to_id m) \<union> set (s # ss)"
    using step(3) ih by auto
  from ih a b c show ?case by (simp add: ids)
qed

lemma sm_inv_injective:
  "sm_inv m \<Longrightarrow> symbol_to_id m s = Some i \<Longrightarrow> symbol_to_id m t = Some i \<Longrightarrow> s = t"
  unfolding sm_inv_def by metis

lemma sm_inv_get_symbol:
  assumes "sm_inv m" and "symbol_to_id m s = Some i"
  shows "get_symbol i m = Inr s"
proof -
  from assms have k: "1 \<le> unat i" "unat i < unat (next_id m)" "id_to_symbol m ! unat i = s"
    by (simp_all add: sm_inv_def)
  from assms(1) have "length (id_to_symbol m) = (if unat (next_id m) = 1 then 0 else unat (next_id m))"
    by (simp add: sm_inv_def)
  with k(1,2) have "unat i < length (id_to_symbol m)"
    by (auto split: if_splits)
  with k(3) show ?thesis
    by (simp add: get_symbol_def vec_get_def)
qed

lemma sm_inv_unassigned:
  assumes "sm_inv m" and "\<forall>s. symbol_to_id m s \<noteq> Some i"
  shows "get_symbol i m = Inr []"
proof (cases "unat i < length (id_to_symbol m)")
  case True
  from assms(1) have "\<forall>j < length (id_to_symbol m).
      id_to_symbol m ! j = [] \<or> symbol_to_id m (id_to_symbol m ! j) = Some (of_nat j)"
    by (simp add: sm_inv_def)
  with True have "id_to_symbol m ! unat i = [] \<or>
      symbol_to_id m (id_to_symbol m ! unat i) = Some (of_nat (unat i))"
    by blast
  with assms(2) have "id_to_symbol m ! unat i = []" by simp
  with True show ?thesis by (simp add: get_symbol_def vec_get_def)
next
  case False
  then show ?thesis by (simp add: get_symbol_def)
qed

lemma get_symbol_total: "\<exists>s. get_symbol i m = Inr s"
  by (simp add: get_symbol_def vec_get_def)


lemma unat_succ_32: "unat (w :: 32 word) < 2 ^ 32 - 1 \<Longrightarrow> unat (w + 1) = Suc (unat w)"
  by (simp add: unat_word_ariths)

lemma get_id_defined:
  assumes inv: "sm_inv m" and cnt: "sm_count m"
    and room: "card (insert s (dom (symbol_to_id m))) < 2 ^ 32 - 1"
  shows "\<exists>i m'. get_id s m = Inr (i, m') \<and> sm_count m'"
proof (cases "symbol_to_id m s")
  case (Some i)
  with cnt show ?thesis by (auto simp: get_id_found)
next
  case None
  let ?n = "unat (next_id m)"
  from None have "s \<notin> dom (symbol_to_id m)" by auto
  with cnt room have n: "?n < 2 ^ 32 - 1"
    by (simp add: sm_count_def)
  then have u: "unat (next_id m + 1) = Suc ?n"
    by (rule unat_succ_32)
  have len: "length (id_to_symbol m) \<le> ?n"
    using inv by (auto simp: sm_inv_def split: if_splits)
  let ?m' = "\<lparr>symbol_to_id = (symbol_to_id m)(s \<mapsto> next_id m),
               id_to_symbol = (resize (Suc ?n) (id_to_symbol m))[?n := s],
               next_id = next_id m + 1\<rparr>"
  have g: "get_id s m = Inr (next_id m, ?m')"
    using None len u by (simp add: get_id_def Let_def vec_set_def resize_length)
  have "sm_count ?m'"
    using cnt None u \<open>s \<notin> dom (symbol_to_id m)\<close> by (simp add: sm_count_def)
  with g show ?thesis by blast
qed

lemma get_ids_defined:
  "sm_inv m \<Longrightarrow> sm_count m \<Longrightarrow> card (dom (symbol_to_id m) \<union> set ss) < 2 ^ 32 - 1 \<Longrightarrow>
   \<exists>ids m'. get_ids ss m = Inr (ids, m')"
proof (induction ss arbitrary: m)
  case Nil
  then show ?case by simp
next
  case (Cons s ss)
  have fin: "finite (dom (symbol_to_id m) \<union> set (s # ss))"
    using Cons.prems(2) by (simp add: sm_count_def)
  have "card (insert s (dom (symbol_to_id m))) \<le> card (dom (symbol_to_id m) \<union> set (s # ss))"
    using fin by (intro card_mono) auto
  with Cons.prems(3) have room: "card (insert s (dom (symbol_to_id m))) < 2 ^ 32 - 1"
    by simp
  from get_id_defined [OF Cons.prems(1,2) room]
  obtain i m1 where g: "get_id s m = Inr (i, m1)" and c1: "sm_count m1"
    by blast
  have inv1: "sm_inv m1"
    using Cons.prems(1) g by (rule get_id_inv)
  have "dom (symbol_to_id m1) \<union> set ss = dom (symbol_to_id m) \<union> set (s # ss)"
    using get_id_result(3) [OF Cons.prems(1) g] by auto
  with Cons.prems(3) have "card (dom (symbol_to_id m1) \<union> set ss) < 2 ^ 32 - 1"
    by simp
  from Cons.IH [OF inv1 c1 this] obtain rest m' where "get_ids ss m1 = Inr (rest, m')"
    by blast
  with g show ?case by simp
qed

lemma init_count: "sm_count SymbolMapper_init"
  by (simp add: sm_count_def SymbolMapper_init_def)


text \<open>
  Claim C3. Take any sequence \<open>ss\<close> of \<open>get_id\<close> calls on a new mapper. If the
  calls hold fewer than \<open>2 ^ 32 - 1\<close> distinct symbols, every call returns an id (past
  that, the 32-bit counter reaches its last value and the write to the reverse table
  is out of bounds). Whenever the calls return ids: two calls return the same id exactly
  when they were made with the same symbol, so a repeated symbol gets its id again,
  distinct symbols get distinct ids and no id is handed to a second symbol; and one
  more call for any of the symbols returns its id again and leaves the mapper as it is.
\<close>

theorem get_id_stable_ids:
  "(card (set ss) < 2 ^ 32 - 1 \<longrightarrow> (\<exists>ids m. get_ids ss SymbolMapper_init = Inr (ids, m))) \<and>
   (\<forall>ids m. get_ids ss SymbolMapper_init = Inr (ids, m) \<longrightarrow>
      length ids = length ss \<and>
      (\<forall>j<length ss. \<forall>k<length ss. (ids ! j = ids ! k) = (ss ! j = ss ! k)) \<and>
      (\<forall>j<length ss. get_id (ss ! j) m = Inr (ids ! j, m)))"
proof (intro conjI impI allI)
  assume "card (set ss) < 2 ^ 32 - 1"
  then have "card (dom (symbol_to_id SymbolMapper_init) \<union> set ss) < 2 ^ 32 - 1"
    by (simp add: SymbolMapper_init_def)
  with init_inv init_count show "\<exists>ids m. get_ids ss SymbolMapper_init = Inr (ids, m)"
    by (rule get_ids_defined)
next
  fix ids m
  assume r: "get_ids ss SymbolMapper_init = Inr (ids, m)"
  note run = get_ids_run [OF init_inv r]
  from run show "length ids = length ss" by simp
  from run have inv: "sm_inv m"
    and tab: "\<And>j. j < length ss \<Longrightarrow> symbol_to_id m (ss ! j) = Some (ids ! j)"
    by simp_all
  show "(ids ! j = ids ! k) = (ss ! j = ss ! k)" if "j < length ss" "k < length ss" for j k
  proof
    assume "ids ! j = ids ! k"
    with tab [OF that(1)] tab [OF that(2)] show "ss ! j = ss ! k"
      using sm_inv_injective [OF inv] by simp
  next
    assume "ss ! j = ss ! k"
    with tab [OF that(1)] tab [OF that(2)] show "ids ! j = ids ! k" by simp
  qed
  show "get_id (ss ! j) m = Inr (ids ! j, m)" if "j < length ss" for j
    using tab [OF that] by (rule get_id_found)
qed


theorem get_id_stable_ids_witness:
  "card (set [''AAPL'', ''MSFT'', ''AAPL'']) < (2 :: nat) ^ 32 - 1 \<and>
   (\<exists>ids m. get_ids [''AAPL'', ''MSFT'', ''AAPL''] SymbolMapper_init = Inr (ids, m)) \<and>
   get_ids [''AAPL'', ''MSFT'', ''AAPL''] SymbolMapper_init =
     Inr ([1, 2, 1], \<lparr>symbol_to_id = [''AAPL'' \<mapsto> 1, ''MSFT'' \<mapsto> 2],
                      id_to_symbol = [[], ''AAPL'', ''MSFT''], next_id = 3\<rparr>) \<and>
   ([1, 2, 1 :: 32 word] ! 0 = [1, 2, 1] ! 2) = ([''AAPL'', ''MSFT'', ''AAPL''] ! 0 = [''AAPL'', ''MSFT'', ''AAPL''] ! 2) \<and>
   ([1, 2, 1 :: 32 word] ! 0 = [1, 2, 1] ! 1) = ([''AAPL'', ''MSFT'', ''AAPL''] ! 0 = [''AAPL'', ''MSFT'', ''AAPL''] ! 1) \<and>
   get_id ([''AAPL'', ''MSFT'', ''AAPL''] ! 1)
       \<lparr>symbol_to_id = [''AAPL'' \<mapsto> 1, ''MSFT'' \<mapsto> 2],
         id_to_symbol = [[], ''AAPL'', ''MSFT''], next_id = 3\<rparr> =
     Inr ([1, 2, 1] ! 1, \<lparr>symbol_to_id = [''AAPL'' \<mapsto> 1, ''MSFT'' \<mapsto> 2],
                          id_to_symbol = [[], ''AAPL'', ''MSFT''], next_id = 3\<rparr>)"
proof -
  let ?ss = "[''AAPL'', ''MSFT'', ''AAPL'']"
  let ?m = "\<lparr>symbol_to_id = [''AAPL'' \<mapsto> 1, ''MSFT'' \<mapsto> 2],
             id_to_symbol = [[], ''AAPL'', ''MSFT''], next_id = 3 :: 32 word\<rparr>"
  have c: "card (set ?ss) < (2 :: nat) ^ 32 - 1"
    using card_length [of ?ss] by simp
  have two: "replicate 2 ([] :: string) = [[], []]"
    by (simp add: numeral_2_eq_2)
  have r: "get_ids ?ss SymbolMapper_init = Inr ([1, 2, 1], ?m)"
    by (simp add: get_id_def SymbolMapper_init_def vec_set_def resize_def Let_def two)
  note t = get_id_stable_ids [of ?ss]
  from t c have e: "\<exists>ids m. get_ids ?ss SymbolMapper_init = Inr (ids, m)"
    by blast
  from t r have q: "\<forall>j<length ?ss. \<forall>k<length ?ss. ([1, 2, 1 :: 32 word] ! j = [1, 2, 1] ! k) = (?ss ! j = ?ss ! k)"
    and g: "\<forall>j<length ?ss. get_id (?ss ! j) ?m = Inr ([1, 2, 1] ! j, ?m)"
    by blast+
  have l: "0 < length ?ss" "1 < length ?ss" "2 < length ?ss" by simp_all
  from q l have q02: "([1, 2, 1 :: 32 word] ! 0 = [1, 2, 1] ! 2) = (?ss ! 0 = ?ss ! 2)"
    and q01: "([1, 2, 1 :: 32 word] ! 0 = [1, 2, 1] ! 1) = (?ss ! 0 = ?ss ! 1)"
    by blast+
  from g l(2) have g1: "get_id (?ss ! 1) ?m = Inr ([1, 2, 1] ! 1, ?m)"
    by blast
  from c e r q02 q01 g1 show ?thesis by blast
qed

text \<open>
  Claim C8. \<open>get_symbol\<close> returns a string on every mapper and every id: the read of
  the reverse table is inside the table. After any sequence \<open>ss\<close> of \<open>get_id\<close> calls
  on a new mapper, \<open>get_symbol\<close> of the id a call returned is the symbol of that
  call, and \<open>get_symbol\<close> of an id that no call returned, inside or past the end of
  the table, is the empty string.
\<close>

theorem get_symbol_round_trip:
  "(\<exists>s. get_symbol i m0 = Inr s) \<and>
   (\<forall>ids m. get_ids ss SymbolMapper_init = Inr (ids, m) \<longrightarrow>
      (\<forall>j<length ss. get_symbol (ids ! j) m = Inr (ss ! j)) \<and>
      (i \<notin> set ids \<longrightarrow> get_symbol i m = Inr []))"
proof (intro conjI impI allI)
  show "\<exists>s. get_symbol i m0 = Inr s" by (rule get_symbol_total)
next
  fix ids m
  assume r: "get_ids ss SymbolMapper_init = Inr (ids, m)"
  note run = get_ids_run [OF init_inv r]
  from run have inv: "sm_inv m" and len: "length ids = length ss"
    and tab: "\<And>j. j < length ss \<Longrightarrow> symbol_to_id m (ss ! j) = Some (ids ! j)"
    and d: "dom (symbol_to_id m) = set ss"
    by (simp_all add: SymbolMapper_init_def)
  show "get_symbol (ids ! j) m = Inr (ss ! j)" if "j < length ss" for j
    using inv tab [OF that] by (rule sm_inv_get_symbol)
  show "get_symbol i m = Inr []" if ni: "i \<notin> set ids"
  proof (rule sm_inv_unassigned [OF inv], intro allI notI)
    fix s assume a: "symbol_to_id m s = Some i"
    then have "s \<in> set ss" using d by auto
    then obtain j where j: "j < length ss" "ss ! j = s"
      by (auto simp: in_set_conv_nth)
    with tab [of j] a have "ids ! j = i" by simp
    with j(1) len ni show False by (metis nth_mem)
  qed
qed

theorem get_symbol_round_trip_witness:
  "get_ids [''AAPL'', ''MSFT'', ''AAPL''] SymbolMapper_init =
     Inr ([1, 2, 1], \<lparr>symbol_to_id = [''AAPL'' \<mapsto> 1, ''MSFT'' \<mapsto> 2],
                      id_to_symbol = [[], ''AAPL'', ''MSFT''], next_id = 3\<rparr>) \<and>
   get_symbol ([1, 2, 1] ! 1)
     \<lparr>symbol_to_id = [''AAPL'' \<mapsto> 1, ''MSFT'' \<mapsto> 2],
       id_to_symbol = [[], ''AAPL'', ''MSFT''], next_id = 3\<rparr> = Inr ([''AAPL'', ''MSFT'', ''AAPL''] ! 1) \<and>
   (0 :: 32 word) \<notin> set [1, 2, 1] \<and>
   get_symbol 0
     \<lparr>symbol_to_id = [''AAPL'' \<mapsto> 1, ''MSFT'' \<mapsto> 2],
       id_to_symbol = [[], ''AAPL'', ''MSFT''], next_id = 3\<rparr> = Inr []"
proof -
  let ?ss = "[''AAPL'', ''MSFT'', ''AAPL'']"
  let ?m = "\<lparr>symbol_to_id = [''AAPL'' \<mapsto> 1, ''MSFT'' \<mapsto> 2],
             id_to_symbol = [[], ''AAPL'', ''MSFT''], next_id = 3 :: 32 word\<rparr>"
  have two: "replicate 2 ([] :: string) = [[], []]"
    by (simp add: numeral_2_eq_2)
  have r: "get_ids ?ss SymbolMapper_init = Inr ([1, 2, 1], ?m)"
    by (simp add: get_id_def SymbolMapper_init_def vec_set_def resize_def Let_def two)
  have n: "(0 :: 32 word) \<notin> set [1, 2, 1]" by simp
  have l: "1 < length ?ss" by simp
  note t = get_symbol_round_trip [of 0 ?m ?ss]
  from t r have a: "\<forall>j<length ?ss. get_symbol ([1, 2, 1] ! j) ?m = Inr (?ss ! j)"
    and b: "(0 :: 32 word) \<notin> set [1, 2, 1] \<longrightarrow> get_symbol 0 ?m = Inr []"
    by blast+
  from a l have a1: "get_symbol ([1, 2, 1] ! 1) ?m = Inr (?ss ! 1)" by blast
  from b n have b0: "get_symbol 0 ?m = Inr []" by blast
  from r a1 n b0 show ?thesis by blast
qed

section \<open>Rounding to binary64 is monotone\<close>

text \<open>
  \<open>ilog2\<close> is the binary exponent, \<open>round_even\<close> is monotone and odd, and so \<open>fl\<close>
  is monotone, odd and keeps the sign. This bounds every double that \<open>midpoint\<close>
  computes by its value at the largest and the smallest price.
\<close>

lemma bitlen_powi_bounds:
  assumes "0 < p"
  shows "(2::rat) powi (bitlen p - 1) \<le> of_int p" and "of_int p < (2::rat) powi bitlen p"
proof -
  from bitlen_bounds [OF assms] have lo: "2 ^ nat (bitlen p - 1) \<le> p" and hi: "p < 2 ^ nat (bitlen p)"
    by simp_all
  have b1: "1 \<le> bitlen p"
    using assms by (auto simp: bitlen_alt_def)
  have "(2::rat) powi (bitlen p - 1) = of_int (2 ^ nat (bitlen p - 1))"
    using b1 by (simp add: power_int_def)
  also have "\<dots> \<le> of_int p"
    using lo by (simp only: of_int_le_iff)
  finally show "(2::rat) powi (bitlen p - 1) \<le> of_int p" .
  have "(of_int p :: rat) < of_int (2 ^ nat (bitlen p))"
    using hi by (simp only: of_int_less_iff)
  also have "\<dots> = 2 powi bitlen p"
    using b1 by (simp add: power_int_def)
  finally show "of_int p < (2::rat) powi bitlen p" .
qed

lemma ilog2_bounds:
  assumes "0 < x"
  shows "2 powi ilog2 x \<le> x" and "x < 2 powi (ilog2 x + 1)"
proof -
  obtain p q where pq: "quotient_of x = (p, q)" by (cases "quotient_of x")
  then have q: "0 < q" and x: "x = of_int p / of_int q"
    by (auto simp: quotient_of_denom_pos quotient_of_div)
  with assms have p: "0 < p"
    by (simp add: zero_less_divide_iff)
  let ?d = "bitlen p - bitlen q"
  note bp = bitlen_powi_bounds [OF p] and bq = bitlen_powi_bounds [OF q]
  have qpos: "(0::rat) < of_int q" using q by simp
  have up: "x < (2::rat) powi (?d + 1)"
  proof -
    have "x * of_int q = of_int p" using qpos by (simp add: x)
    also have "\<dots> < 2 powi bitlen p" by (rule bp(2))
    also have "\<dots> = (2::rat) powi (?d + 1) * 2 powi (bitlen q - 1)"
      by (simp flip: power_int_add)
    also have "\<dots> \<le> 2 powi (?d + 1) * of_int q"
      using bq(1) by (intro mult_left_mono) simp_all
    finally show ?thesis using qpos by simp
  qed
  have low: "(2::rat) powi (?d - 1) \<le> x"
  proof -
    have "(2::rat) powi (?d - 1) * of_int q \<le> 2 powi (?d - 1) * 2 powi bitlen q"
      using less_imp_le [OF bq(2)] by (intro mult_left_mono) simp_all
    also have "\<dots> = 2 powi (bitlen p - 1)"
      by (simp flip: power_int_add)
    also have "\<dots> \<le> of_int p" by (rule bp(1))
    also have "\<dots> = x * of_int q" using qpos by (simp add: x)
    finally show ?thesis using qpos by simp
  qed
  have il: "ilog2 x = (if 2 powi ?d \<le> x then ?d else ?d - 1)"
    by (simp add: ilog2_def pq Let_def)
  show "2 powi ilog2 x \<le> x"
    using low by (simp add: il)
  show "x < 2 powi (ilog2 x + 1)"
    using up by (auto simp: il not_le)
qed

lemma ilog2_mono:
  assumes "0 < x" "x \<le> y"
  shows "ilog2 x \<le> ilog2 y"
proof -
  have "(2::rat) powi ilog2 x \<le> x" using assms(1) by (rule ilog2_bounds)
  also have "\<dots> \<le> y" by fact
  also have "\<dots> < 2 powi (ilog2 y + 1)" using assms by (intro ilog2_bounds) simp
  finally have "(2::rat) powi ilog2 x < 2 powi (ilog2 y + 1)" .
  then have "ilog2 x < ilog2 y + 1"
    by (metis not_less power_int_increasing one_le_numeral)
  then show ?thesis by simp
qed


lemma round_even_cases: "round_even y = \<lfloor>y\<rfloor> \<or> round_even y = \<lfloor>y\<rfloor> + 1"
  by (simp add: round_even_def Let_def)

lemma round_even_of_int [simp]: "round_even (of_int n) = n"
  by (simp add: round_even_def)

lemma round_even_mono:
  assumes "y \<le> z"
  shows "round_even y \<le> round_even z"
proof (cases "\<lfloor>y\<rfloor> < \<lfloor>z\<rfloor>")
  case True
  have "round_even y \<le> \<lfloor>y\<rfloor> + 1" using round_even_cases [of y] by auto
  also have "\<dots> \<le> \<lfloor>z\<rfloor>" using True by simp
  also have "\<dots> \<le> round_even z" using round_even_cases [of z] by auto
  finally show ?thesis .
next
  case False
  with assms have eq: "\<lfloor>y\<rfloor> = \<lfloor>z\<rfloor>"
    using floor_mono [of y z] by simp
  with assms have "y - of_int \<lfloor>z\<rfloor> \<le> z - of_int \<lfloor>z\<rfloor>" by simp
  then show ?thesis
    by (auto simp: round_even_def Let_def eq)
qed

lemma round_even_minus: "round_even (- y) = - round_even y"
proof (cases "y = of_int \<lfloor>y\<rfloor>")
  case True
  then obtain n where "y = of_int n" ..
  then have "- y = of_int (- n)" by simp
  then show ?thesis
    using \<open>y = of_int n\<close> by (simp only: round_even_of_int)
next
  case False
  then have c: "\<lceil>y\<rceil> = \<lfloor>y\<rfloor> + 1"
    by (metis ceiling_altdef)
  have f: "\<lfloor>- y\<rfloor> = - \<lfloor>y\<rfloor> - 1"
    using c by (simp add: floor_minus)
  have r: "- y - of_int (- \<lfloor>y\<rfloor> - 1) = 1 - (y - of_int \<lfloor>y\<rfloor>)"
    by simp
  have pos: "0 < y - of_int \<lfloor>y\<rfloor>"
    using False by (simp add: less_le)
  show ?thesis
    unfolding round_even_def Let_def f r by (auto simp: algebra_simps)
qed

lemma round_even_ge: "of_int n \<le> y \<Longrightarrow> n \<le> round_even y"
  using round_even_mono [of "of_int n" y] by simp

lemma round_even_le: "y \<le> of_int n \<Longrightarrow> round_even y \<le> n"
  using round_even_mono [of y "of_int n"] by simp

lemma fl_zero [simp]: "fl 0 = 0"
  by (simp add: fl_def)

lemma fl_minus: "fl (- x) = - fl x"
  by (simp add: fl_def Let_def round_even_minus)

lemma fl_pos_bounds:
  assumes "0 < x"
  shows "2 powi ilog2 x \<le> fl x" and "fl x \<le> 2 powi (ilog2 x + 1)"
proof -
  let ?e = "ilog2 x"
  let ?u = "(2::rat) powi (?e - 52)"
  have u: "0 < ?u" by simp
  have f: "fl x = of_int (round_even (x / ?u)) * ?u"
    using assms by (simp add: fl_def Let_def)
  have e52: "(2::rat) powi ?e = 2 ^ 52 * ?u"
    by (simp add: power_int_diff)
  have e53: "(2::rat) powi (?e + 1) = 2 ^ 53 * ?u"
    by (simp add: power_int_diff power_int_add)
  have "of_int (2 ^ 52) \<le> x / ?u"
    using ilog2_bounds(1) [OF assms] u by (simp add: e52 pos_le_divide_eq)
  then have "2 ^ 52 \<le> round_even (x / ?u)"
    by (rule round_even_ge)
  then have "(2::rat) ^ 52 \<le> of_int (round_even (x / ?u))"
    by (metis of_int_le_iff of_int_numeral of_int_power)
  then have "2 ^ 52 * ?u \<le> of_int (round_even (x / ?u)) * ?u"
    using u by (intro mult_right_mono) simp_all
  then show "2 powi ?e \<le> fl x"
    by (simp only: f e52)
  have "x / ?u \<le> of_int (2 ^ 53)"
    using ilog2_bounds(2) [OF assms] u by (simp add: e53 pos_divide_le_eq)
  then have "round_even (x / ?u) \<le> 2 ^ 53"
    by (rule round_even_le)
  then have "of_int (round_even (x / ?u)) \<le> (2::rat) ^ 53"
    by (metis of_int_le_iff of_int_numeral of_int_power)
  then have "of_int (round_even (x / ?u)) * ?u \<le> 2 ^ 53 * ?u"
    using u by (intro mult_right_mono) simp_all
  then show "fl x \<le> 2 powi (?e + 1)"
    by (simp only: f e53)
qed

lemma fl_pos: "0 < x \<Longrightarrow> 0 < fl x"
  using fl_pos_bounds(1) [of x] zero_less_power_int [of "2::rat" "ilog2 x"]
  by (simp del: zero_less_power_int)

lemma fl_mono_pos:
  assumes "0 < x" "x \<le> y"
  shows "fl x \<le> fl y"
proof (cases "ilog2 x = ilog2 y")
  case True
  let ?u = "(2::rat) powi (ilog2 y - 52)"
  have u: "0 < ?u" by simp
  have "x / ?u \<le> y / ?u"
    using assms(2) u by (simp add: divide_right_mono)
  then have "round_even (x / ?u) \<le> round_even (y / ?u)"
    by (rule round_even_mono)
  then have "(of_int (round_even (x / ?u)) :: rat) * ?u \<le> of_int (round_even (y / ?u)) * ?u"
    using u by (intro mult_right_mono) simp_all
  with assms True show ?thesis
    by (simp add: fl_def Let_def)
next
  case False
  with ilog2_mono [OF assms] have lt: "ilog2 x + 1 \<le> ilog2 y" by simp
  have y: "0 < y" using assms by simp
  have "fl x \<le> 2 powi (ilog2 x + 1)" using assms(1) by (rule fl_pos_bounds)
  also have "\<dots> \<le> 2 powi ilog2 y" using lt by (intro power_int_increasing) simp_all
  also have "\<dots> \<le> fl y" using y by (rule fl_pos_bounds)
  finally show ?thesis .
qed

lemma fl_mono:
  assumes "x \<le> y"
  shows "fl x \<le> fl y"
proof -
  consider "0 < x" | "x \<le> 0" "0 \<le> y" | "y < 0" by linarith
  then show ?thesis
  proof cases
    case 1
    from 1 assms show ?thesis by (rule fl_mono_pos)
  next
    case 2
    have "fl x \<le> 0"
    proof (cases "x = 0")
      case False
      with 2 have "0 < - x" by simp
      from fl_pos [OF this] show ?thesis by (simp add: fl_minus)
    qed simp
    moreover have "0 \<le> fl y"
    proof (cases "y = 0")
      case False
      with 2 have "0 < y" by simp
      from fl_pos [OF this] show ?thesis by simp
    qed simp
    ultimately show ?thesis by simp
  next
    case 3
    with assms have "0 < - y" "- y \<le> - x" by simp_all
    from fl_mono_pos [OF this] show ?thesis by (simp add: fl_minus)
  qed
qed

lemma lo_chain:
  "fl (fl (fl (fl (fl (of_int (- (2 ^ 63))) / 10000) + fl (fl (of_int (- (2 ^ 63))) / 10000)) / 2) * 10000)
     = - (2 ^ 63)"
  by code_simp

lemma hi_chain:
  "fl (fl (fl (fl (fl (of_int (9 * 10 ^ 18)) / 10000) + fl (fl (of_int (9 * 10 ^ 18)) / 10000)) / 2) * 10000)
     = 9 * 10 ^ 18"
  by code_simp

section \<open>Price arithmetic and the spread\<close>

text \<open>
  Claim C4 (the code departs from it). \<open>operator+\<close> and \<open>operator-\<close> add or subtract
  the two integers, divide the result by \<open>10000.0\<close> and build the returned price
  from that double, which multiplies by \<open>10000\<close> again and drops the fraction. The
  round trip through doubles loses a unit: $0.25 + $0.32 (integer values 2500 and 3200)
  gives the integer value 5699, not 5700, and so does $1.00 - $0.43.
\<close>

theorem Price_arith_loses_precision:
  "Price_plus \<lparr>value = 2500\<rparr> \<lparr>value = 3200\<rparr> = Inr \<lparr>value = 5699\<rparr> \<and>
   Price_minus \<lparr>value = 10000\<rparr> \<lparr>value = 4300\<rparr> = Inr \<lparr>value = 5699\<rparr>"
  by code_simp

text \<open>
  The doubles of \<open>midpoint\<close> are bounded by their values at the extreme prices, so
  the cast to \<^verbatim>\<open>int64_t\<close> in \<open>Price(double)\<close> is defined for every tick with prices
  up to \<open>9 * 10 ^ 18\<close>, and gives a value that is not positive when neither price is.
\<close>

lemma to_double_le:
  assumes "sint (value p) \<le> v"
  shows "to_double p \<le> fl (fl (of_int v) / 10000)"
proof -
  have "(of_int (sint (value p)) :: rat) \<le> of_int v"
    using assms by (simp only: of_int_le_iff)
  then have "fl (of_int (sint (value p))) / 10000 \<le> fl (of_int v) / 10000"
    by (intro divide_right_mono fl_mono) simp_all
  then show ?thesis
    unfolding to_double_def by (rule fl_mono)
qed

lemma to_double_ge:
  assumes "v \<le> sint (value p)"
  shows "fl (fl (of_int v) / 10000) \<le> to_double p"
proof -
  have "(of_int v :: rat) \<le> of_int (sint (value p))"
    using assms by (simp only: of_int_le_iff)
  then have "fl (of_int v) / 10000 \<le> fl (of_int (sint (value p))) / 10000"
    by (intro divide_right_mono fl_mono) simp_all
  then show ?thesis
    unfolding to_double_def by (rule fl_mono)
qed

lemma mid_arg_mono:
  "x \<le> x' \<Longrightarrow> y \<le> y' \<Longrightarrow>
   fl (fl (fl (x + y) / 2) * 10000) \<le> fl (fl (fl (x' + y') / 2) * 10000)"
  by (intro fl_mono divide_right_mono mult_right_mono add_mono) simp_all

lemma midpoint_eq:
  "midpoint t =
     (case cast_int64 (fl (fl (fl (to_double (bid t) + to_double (ask t)) / 2) * 10000)) of
        Inl e \<Rightarrow> Inl e
      | Inr v \<Rightarrow> Inr \<lparr>value = v\<rparr>)"
  by (simp add: midpoint_def double_div_def Price_of_double_def)

lemma sint_of_int_64: "- (2 ^ 63) \<le> v \<Longrightarrow> v < 2 ^ 63 \<Longrightarrow> sint (word_of_int v :: 64 word) = v"
  by (simp add: signed_of_int signed_take_bit_int_eq_self)

lemma cast_int64_ok:
  assumes "- (2 ^ 63) \<le> d" "d < 2 ^ 63"
  shows "cast_int64 d = Inr (word_of_int (truncate_double d))"
    and "sint (word_of_int (truncate_double d) :: 64 word) = truncate_double d"
proof -
  have lo: "- (2 ^ 63) \<le> truncate_double d"
  proof -
    have "(- (2 ^ 63) :: int) \<le> \<lceil>d\<rceil>"
      using assms(1) by (simp add: le_ceiling_iff)
    moreover have "(- (2 ^ 63) :: int) \<le> \<lfloor>d\<rfloor>" if "0 \<le> d"
      using that by (simp add: le_floor_iff)
    ultimately show ?thesis by (simp add: truncate_double_def)
  qed
  have hi: "truncate_double d < 2 ^ 63"
  proof -
    have "\<lfloor>d\<rfloor> < (2 ^ 63 :: int)"
      using assms(2) by (simp add: floor_less_iff)
    moreover have "\<lceil>d\<rceil> < (2 ^ 63 :: int)" if "d < 0"
      using that by (simp add: ceiling_less_iff)
    ultimately show ?thesis by (auto simp: truncate_double_def)
  qed
  from lo hi show "cast_int64 d = Inr (word_of_int (truncate_double d))"
    by (simp add: cast_int64_def Let_def)
  from lo hi show "sint (word_of_int (truncate_double d) :: 64 word) = truncate_double d"
    by (rule sint_of_int_64)
qed

lemma sint_ge_64: "- (2 ^ 63) \<le> sint (w :: 64 word)"
  using sint_ge [of w] by simp

lemma mid_arg_lower:
  "- (2 ^ 63) \<le> fl (fl (fl (to_double (bid t) + to_double (ask t)) / 2) * 10000)"
proof -
  let ?L = "fl (fl (of_int (- (2 ^ 63))) / 10000)"
  have "?L \<le> to_double (bid t)" "?L \<le> to_double (ask t)"
    by (intro to_double_ge sint_ge_64)+
  then have "fl (fl (fl (?L + ?L) / 2) * 10000)
      \<le> fl (fl (fl (to_double (bid t) + to_double (ask t)) / 2) * 10000)"
    by (rule mid_arg_mono)
  then show ?thesis by (simp only: lo_chain)
qed

lemma midpoint_nonpos:
  assumes "sint (value (bid t)) \<le> 0" "sint (value (ask t)) \<le> 0"
  shows "\<exists>m. midpoint t = Inr m \<and> to_double m \<le> 0"
proof -
  let ?d = "fl (fl (fl (to_double (bid t) + to_double (ask t)) / 2) * 10000)"
  have "to_double (bid t) \<le> fl (fl (of_int 0) / 10000)" "to_double (ask t) \<le> fl (fl (of_int 0) / 10000)"
    using assms by (intro to_double_le; simp)+
  then have b: "to_double (bid t) \<le> 0" "to_double (ask t) \<le> 0" by simp_all
  from mid_arg_mono [OF b] have d0: "?d \<le> 0" by simp
  then have d1: "?d < 2 ^ 63" by simp
  note c = cast_int64_ok [OF mid_arg_lower d1]
  let ?m = "\<lparr>value = word_of_int (truncate_double ?d)\<rparr>"
  have m: "midpoint t = Inr ?m"
    by (simp add: midpoint_eq c(1))
  have "truncate_double ?d \<le> 0"
    using d0 by (auto simp: truncate_double_def ceiling_le_iff floor_le_iff)
  then have "sint (value ?m) \<le> 0"
    by (simp add: c(2))
  from to_double_le [OF this] have "to_double ?m \<le> 0" by simp
  with m show ?thesis by blast
qed

lemma midpoint_defined:
  assumes "sint (value (bid t)) \<le> 9 * 10 ^ 18" "sint (value (ask t)) \<le> 9 * 10 ^ 18"
  shows "\<exists>m. midpoint t = Inr m"
proof -
  let ?d = "fl (fl (fl (to_double (bid t) + to_double (ask t)) / 2) * 10000)"
  let ?H = "fl (fl (of_int (9 * 10 ^ 18)) / 10000)"
  have "to_double (bid t) \<le> ?H" "to_double (ask t) \<le> ?H"
    using assms by (intro to_double_le; simp)+
  then have "?d \<le> fl (fl (fl (?H + ?H) / 2) * 10000)"
    by (rule mid_arg_mono)
  then have "?d \<le> 9 * 10 ^ 18" by (simp only: hi_chain)
  then have d1: "?d < 2 ^ 63" by simp
  note c = cast_int64_ok [OF mid_arg_lower d1]
  show ?thesis by (simp add: midpoint_eq c(1))
qed

lemma spread_pct_cases:
  "midpoint t = Inr m \<Longrightarrow>
   spread_pct t = (if to_double m > 0 then Inr (fl (fl (spread t / to_double m) * 100)) else Inr 0)"
  by (simp add: spread_pct_def double_div_def Let_def)

text \<open>
  Claim C10. \<open>spread_pct\<close> never divides by zero, on any tick: the division by the
  midpoint is evaluated only when the midpoint, as a double, is greater than zero.
  Whenever the midpoint is not greater than zero the result is \<open>0.0\<close>; this is the
  case of every tick whose bid and ask are zero or negative. For every tick with bid and
  ask up to \<open>9 * 10 ^ 18\<close> (in units of 1/10000) \<open>spread_pct\<close> returns a double.
\<close>

theorem spread_pct_guarded:
  "spread_pct t \<noteq> Inl DivisionByZero \<and>
   (\<forall>m. midpoint t = Inr m \<and> to_double m \<le> 0 \<longrightarrow> spread_pct t = Inr 0) \<and>
   (sint (value (bid t)) \<le> 0 \<and> sint (value (ask t)) \<le> 0 \<longrightarrow> spread_pct t = Inr 0) \<and>
   (sint (value (bid t)) \<le> 9 * 10 ^ 18 \<and> sint (value (ask t)) \<le> 9 * 10 ^ 18 \<longrightarrow>
      (\<exists>r. spread_pct t = Inr r))"
proof (intro conjI allI impI)
  show "spread_pct t \<noteq> Inl DivisionByZero"
    by (auto simp: spread_pct_def midpoint_def double_div_def Price_of_double_def cast_int64_def
        Let_def split: sum.splits if_splits)
next
  fix m assume "midpoint t = Inr m \<and> to_double m \<le> 0"
  then show "spread_pct t = Inr 0" by (simp add: spread_pct_cases)
next
  assume "sint (value (bid t)) \<le> 0 \<and> sint (value (ask t)) \<le> 0"
  then obtain m where "midpoint t = Inr m" "to_double m \<le> 0"
    using midpoint_nonpos [of t] by blast
  then show "spread_pct t = Inr 0" by (simp add: spread_pct_cases)
next
  assume "sint (value (bid t)) \<le> 9 * 10 ^ 18 \<and> sint (value (ask t)) \<le> 9 * 10 ^ 18"
  then obtain m where "midpoint t = Inr m"
    using midpoint_defined [of t] by blast
  then show "\<exists>r. spread_pct t = Inr r" by (simp add: spread_pct_cases)
qed

theorem spread_pct_guarded_witness:
  "midpoint \<lparr>timestamp = 0, symbol_id = 1, bid = \<lparr>value = - 5\<rparr>, ask = \<lparr>value = - 3\<rparr>,
      last_trade = \<lparr>value = 0\<rparr>, bid_size = 0, ask_size = 0, volume = 0, sequence_number = 0,
      exchange_id = 0, padding = 0\<rparr> = Inr \<lparr>value = - 3\<rparr> \<and>
   to_double \<lparr>value = - 3\<rparr> \<le> 0 \<and>
   sint (- 5 :: 64 word) \<le> 0 \<and> sint (- 3 :: 64 word) \<le> 0 \<and>
   spread_pct \<lparr>timestamp = 0, symbol_id = 1, bid = \<lparr>value = - 5\<rparr>, ask = \<lparr>value = - 3\<rparr>,
      last_trade = \<lparr>value = 0\<rparr>, bid_size = 0, ask_size = 0, volume = 0, sequence_number = 0,
      exchange_id = 0, padding = 0\<rparr> = Inr 0"
proof -
  let ?t = "\<lparr>timestamp = 0, symbol_id = 1, bid = \<lparr>value = - 5\<rparr>, ask = \<lparr>value = - 3\<rparr>,
      last_trade = \<lparr>value = 0\<rparr>, bid_size = 0, ask_size = 0, volume = 0, sequence_number = 0,
      exchange_id = 0, padding = 0\<rparr>"
  have m: "midpoint ?t = Inr \<lparr>value = - 3\<rparr>" by code_simp
  have d: "to_double \<lparr>value = - 3\<rparr> \<le> 0" by code_simp
  have n: "sint (- 5 :: 64 word) \<le> 0" "sint (- 3 :: 64 word) \<le> 0" by simp_all
  from spread_pct_guarded [of ?t] m d have "spread_pct ?t = Inr 0" by blast
  with m d n show ?thesis by blast
qed

text \<open>
  Past that bound the cast can fail: with bid and ask at the largest \<^verbatim>\<open>int64_t\<close> the
  double that \<open>midpoint\<close> casts is \<open>2 ^ 63\<close>.
\<close>

lemma midpoint_cast_fault:
  "spread_pct \<lparr>timestamp = 0, symbol_id = 1, bid = \<lparr>value = 2 ^ 63 - 1\<rparr>,
      ask = \<lparr>value = 2 ^ 63 - 1\<rparr>, last_trade = \<lparr>value = 0\<rparr>, bid_size = 0, ask_size = 0,
      volume = 0, sequence_number = 0, exchange_id = 0, padding = 0\<rparr> = Inl CastOutOfRange"
  by code_simp

section \<open>Entry fill, risk gate and aggregator\<close>



lemma fl_5_100: "fl (5 / 100) = 3602879701896397 / 2 ^ 56"
  by code_simp




text \<open>
  Claim C6. \<open>can_open_position\<close> is false whenever the notional exceeds the
  \<open>max_position_size\<close> fraction of the portfolio value. With the default limits
  (\<open>max_position_size\<close> the double \<open>0.05\<close>, which makes the cap on a portfolio value of
  $100,000 exactly $5,000 in doubles), a notional of $6,000 is rejected, and a notional
  of $4,000 is accepted when the other three limits hold.
\<close>

theorem can_open_position_size_limit:
  "(notional > max_position_size (limits rm) * portfolio_value \<longrightarrow>
      \<not> can_open_position rm notional portfolio_value) \<and>
   max_position_size RiskLimits_default = fl (5 / 100) \<and>
   fl (max_position_size RiskLimits_default * 100000) = 5000 \<and>
   (limits rm = RiskLimits_default \<longrightarrow> \<not> can_open_position rm 6000 100000) \<and>
   (limits rm = RiskLimits_default \<and>
    current_portfolio_risk rm \<le> max_portfolio_risk (limits rm) \<and>
    open_positions rm + 1 \<le> risk_max_positions (limits rm) \<and>
    daily_loss rm \<le> max_daily_loss (limits rm) \<longrightarrow> can_open_position rm 4000 100000)"
proof -
  have m: "max_position_size RiskLimits_default = fl (5 / 100)"
    by (simp add: RiskLimits_default_def)
  have cap: "fl (fl (5 / 100) * 100000) = 5000"
    by code_simp
  have a: "n > max_position_size (limits rm) * v \<longrightarrow> \<not> can_open_position rm n v" for n v
    by (simp add: can_open_position_def risk_check_def)
  have b: "limits rm = RiskLimits_default \<longrightarrow> \<not> can_open_position rm 6000 100000"
  proof
    assume l: "limits rm = RiskLimits_default"
    have "(6000 :: rat) > max_position_size (limits rm) * 100000"
      unfolding l m fl_5_100 by simp
    with a [where n = 6000 and v = 100000] show "\<not> can_open_position rm 6000 100000" by blast
  qed
  have c: "limits rm = RiskLimits_default \<and>
    current_portfolio_risk rm \<le> max_portfolio_risk (limits rm) \<and>
    open_positions rm + 1 \<le> risk_max_positions (limits rm) \<and>
    daily_loss rm \<le> max_daily_loss (limits rm) \<longrightarrow> can_open_position rm 4000 100000"
  proof
    assume h: "limits rm = RiskLimits_default \<and>
      current_portfolio_risk rm \<le> max_portfolio_risk (limits rm) \<and>
      open_positions rm + 1 \<le> risk_max_positions (limits rm) \<and>
      daily_loss rm \<le> max_daily_loss (limits rm)"
    then have l: "limits rm = RiskLimits_default"
      and r: "\<not> current_portfolio_risk rm > max_portfolio_risk (limits rm)"
        "\<not> open_positions rm + 1 > risk_max_positions (limits rm)"
        "\<not> daily_loss rm > max_daily_loss (limits rm)"
      by (auto simp: not_less)
    have "\<not> (4000 :: rat) > max_position_size (limits rm) * 100000"
      unfolding l m fl_5_100 by simp
    with r show "can_open_position rm 4000 100000"
      unfolding can_open_position_def risk_check_def by (simp only: if_False)
  qed
  have cap': "fl (max_position_size RiskLimits_default * 100000) = 5000"
    unfolding m by (rule cap)
  from a [where n = notional and v = portfolio_value] m cap' b c show ?thesis by blast
qed

theorem can_open_position_size_limit_witness:
  "(6000 :: rat) > max_position_size RiskLimits_default * 100000 \<and>
   \<not> can_open_position
       \<lparr>limits = RiskLimits_default, current_portfolio_risk = 0, open_positions = 0, daily_loss = 0\<rparr>
       6000 100000 \<and>
   can_open_position
       \<lparr>limits = RiskLimits_default, current_portfolio_risk = 0, open_positions = 0, daily_loss = 0\<rparr>
       4000 100000"
proof -
  let ?rm = "\<lparr>limits = RiskLimits_default, current_portfolio_risk = 0, open_positions = 0,
              daily_loss = 0\<rparr>"
  have m: "max_position_size (limits ?rm) = fl (5 / 100)"
    by (simp add: RiskLimits_default_def)
  have a: "(6000 :: rat) > max_position_size (limits ?rm) * 100000"
    unfolding m fl_5_100 by simp
  have p: "(0 :: rat) \<le> fl (10 / 100)" "(0 :: rat) \<le> fl (2 / 100)"
    by (intro less_imp_le fl_pos; simp)+
  have b: "limits ?rm = RiskLimits_default \<and>
    current_portfolio_risk ?rm \<le> max_portfolio_risk (limits ?rm) \<and>
    open_positions ?rm + 1 \<le> risk_max_positions (limits ?rm) \<and>
    daily_loss ?rm \<le> max_daily_loss (limits ?rm)"
    using p by (simp add: RiskLimits_default_def)
  note t = can_open_position_size_limit [where rm = ?rm]
  from t [where notional = 6000 and portfolio_value = 100000] a
  have r: "\<not> can_open_position ?rm 6000 100000" by blast
  from t [where notional = 0 and portfolio_value = 0] b
  have c: "can_open_position ?rm 4000 100000" by blast
  from a r c show ?thesis by simp
qed

text \<open>
  Claim C7. A tick with \<open>ask \<le> bid\<close>, or with \<open>ask \<le> 0\<close> or \<open>bid \<le> 0\<close>, is
  rejected by \<open>add_tick\<close>: the rejection counter goes up by one, and the latest tick of
  every symbol, the history of every symbol and so every other part of the aggregator
  stay as they were.
\<close>

theorem add_tick_rejects_invalid:
  assumes "sint (value (ask t)) \<le> sint (value (bid t)) \<or>
           sint (value (ask t)) \<le> 0 \<or> sint (value (bid t)) \<le> 0"
  shows "add_tick window t s = s\<lparr>rejected := rejected s + 1\<rparr> \<and>
         rejected (add_tick window t s) = rejected s + 1 \<and>
         latest (add_tick window t s) = latest s \<and>
         get_latest_tick (symbol_id t) (add_tick window t s) = get_latest_tick (symbol_id t) s \<and>
         history (add_tick window t s) = history s"
proof -
  from assms have "tick_rejected t"
    by (auto simp: tick_rejected_def Price_greater_def)
  then show ?thesis
    by (simp add: add_tick_def get_latest_tick_def)
qed

theorem add_tick_rejects_invalid_witness:
  "sint (value (ask \<lparr>timestamp = 0, symbol_id = 1, bid = \<lparr>value = 1495000\<rparr>,
      ask = \<lparr>value = 1495000\<rparr>, last_trade = \<lparr>value = 1495000\<rparr>, bid_size = 1, ask_size = 1,
      volume = 1000, sequence_number = 7, exchange_id = 0, padding = 0\<rparr>))
     \<le> sint (value (bid \<lparr>timestamp = 0, symbol_id = 1, bid = \<lparr>value = 1495000\<rparr>,
      ask = \<lparr>value = 1495000\<rparr>, last_trade = \<lparr>value = 1495000\<rparr>, bid_size = 1, ask_size = 1,
      volume = 1000, sequence_number = 7, exchange_id = 0, padding = 0\<rparr>)) \<and>
   rejected (add_tick 100 \<lparr>timestamp = 0, symbol_id = 1, bid = \<lparr>value = 1495000\<rparr>,
      ask = \<lparr>value = 1495000\<rparr>, last_trade = \<lparr>value = 1495000\<rparr>, bid_size = 1, ask_size = 1,
      volume = 1000, sequence_number = 7, exchange_id = 0, padding = 0\<rparr>
      \<lparr>latest = Map.empty, history = (\<lambda>sid. []), rejected = 0\<rparr>) = 1 \<and>
   latest (add_tick 100 \<lparr>timestamp = 0, symbol_id = 1, bid = \<lparr>value = 1495000\<rparr>,
      ask = \<lparr>value = 1495000\<rparr>, last_trade = \<lparr>value = 1495000\<rparr>, bid_size = 1, ask_size = 1,
      volume = 1000, sequence_number = 7, exchange_id = 0, padding = 0\<rparr>
      \<lparr>latest = Map.empty, history = (\<lambda>sid. []), rejected = 0\<rparr>) = Map.empty \<and>
   history (add_tick 100 \<lparr>timestamp = 0, symbol_id = 1, bid = \<lparr>value = 1495000\<rparr>,
      ask = \<lparr>value = 1495000\<rparr>, last_trade = \<lparr>value = 1495000\<rparr>, bid_size = 1, ask_size = 1,
      volume = 1000, sequence_number = 7, exchange_id = 0, padding = 0\<rparr>
      \<lparr>latest = Map.empty, history = (\<lambda>sid. []), rejected = 0\<rparr>) = (\<lambda>sid. [])"
proof -
  let ?t = "\<lparr>timestamp = 0, symbol_id = 1, bid = \<lparr>value = 1495000\<rparr>,
      ask = \<lparr>value = 1495000\<rparr>, last_trade = \<lparr>value = 1495000\<rparr>, bid_size = 1, ask_size = 1,
      volume = 1000, sequence_number = 7, exchange_id = 0, padding = 0\<rparr>"
  let ?s = "\<lparr>latest = Map.empty, history = (\<lambda>sid. []), rejected = 0\<rparr>"
  have h: "sint (value (ask ?t)) \<le> sint (value (bid ?t))" by simp
  then have "sint (value (ask ?t)) \<le> sint (value (bid ?t)) \<or>
      sint (value (ask ?t)) \<le> 0 \<or> sint (value (bid ?t)) \<le> 0"
    by blast
  from add_tick_rejects_invalid [OF this, of 100 ?s]
  have "rejected (add_tick 100 ?t ?s) = 1" and "latest (add_tick 100 ?t ?s) = Map.empty"
    and "history (add_tick 100 ?t ?s) = (\<lambda>sid. [])"
    by simp_all
  with h show ?thesis by blast
qed

end
